theory Spec2Isabelle
  imports Main
begin

section \<open>The reactivity core of \<^verbatim>\<open>packages/reactivity/src/effect.ts\<close>\<close>

text \<open>
  The module keeps a registry \<^verbatim>\<open>targetMap\<close> from observed objects to per-key dependency
  sets, a stack of running effects, the innermost running effect, and a nestable
  tracking switch. Effects are function objects with mutable fields, and one \<^verbatim>\<open>Set\<close>
  object is shared between the registry and the \<^verbatim>\<open>deps\<close> arrays of its members; both
  kinds of object therefore live in explicit stores addressed by natural numbers.
  A JavaScript \<^verbatim>\<open>Set\<close> and \<^verbatim>\<open>Map\<close> enumerate in insertion order, so a set is a list
  without repetition and a map is an association list.
\<close>

subsection \<open>Keys, values, objects\<close>

text \<open>
  Property keys are strings or symbols. The two iteration markers are the symbols the
  module itself creates.
\<close>

datatype symbol = ITERATE_KEY | MAP_KEY_ITERATE_KEY | UserSymbol nat

datatype key = Str string | Sym symbol

text \<open>
  The values that cross the interface of the core: \<^verbatim>\<open>undefined\<close>, a number that is a
  natural number, and a reference to an effect (what \<^verbatim>\<open>effect()\<close> returns).
\<close>

datatype val = Undefined | Num nat | EffectRef nat

datatype exn = TypeError | UserError val

text \<open>
  What a call can come to: it returns, it throws, or the model's recursion budget is used
  up (the call does not return in that many nested calls of computations).
\<close>

datatype 'a outcome = Normal 'a | Throw exn | OutOfFuel

text \<open>
  Modelled from the spec: the enumerations of \<^verbatim>\<open>./operations\<close> are not among the sources;
  the spec gives the vocabulary Get/Has/Iterate for \<^verbatim>\<open>track\<close> and Set/Add/Delete/Clear for
  \<^verbatim>\<open>trigger\<close>.
\<close>

datatype TrackOpTypes = GET | HAS | ITERATE

datatype TriggerOpTypes = SET | ADD | DELETE | CLEAR

text \<open>
  Modelled from the spec: \<^verbatim>\<open>isArray\<close> and \<^verbatim>\<open>isMap\<close> come from the shared utilities, which
  are not among the sources. An observed object is array-like, map-like or neither; it has
  an identity.
\<close>

datatype target_kind = PlainObject | ArrayObject | MapObject | SetObject

datatype target = Target target_kind nat

fun isArray :: "target \<Rightarrow> bool" where
  "isArray (Target k i) = (k = ArrayObject)"

fun isMap :: "target \<Rightarrow> bool" where
  "isMap (Target k i) = (k = MapObject)"

definition is_digit :: "char \<Rightarrow> bool" where
  "is_digit c = (c \<in> set ''0123456789'')"

definition digits_value :: "string \<Rightarrow> nat" where
  "digits_value s = foldl (\<lambda>a c. 10 * a + (of_char c - 48)) 0 s"

text \<open>
  Modelled from the spec: \<^verbatim>\<open>isIntegerKey\<close> comes from the shared utilities, which are not
  among the sources. The spec's ``valid integer index'' is read as: a string that is the
  canonical decimal numeral of a natural number.
\<close>

fun isIntegerKey :: "key option \<Rightarrow> bool" where
  "isIntegerKey (Some (Str s)) =
     (s \<noteq> [] \<and> list_all is_digit s \<and> (s = ''0'' \<or> hd s \<noteq> CHR ''0''))"
| "isIntegerKey (Some (Sym y)) = False"
| "isIntegerKey None = False"

subsection \<open>The comparison \<^verbatim>\<open>key >= newValue\<close>\<close>

text \<open>
  The length branch of \<^verbatim>\<open>trigger\<close> compares a key of the dependency map with the new
  length by the language's \<^verbatim>\<open>>=\<close>, which converts its operands. Converting a symbol
  throws a \<^verbatim>\<open>TypeError\<close>. For a string key the comparison always gives a truth value.
  That value is computed here where it needs neither the whole grammar of numeric literals
  nor floating-point rounding: against \<^verbatim>\<open>undefined\<close> it is false; the empty string is 0,
  a string of decimal digits (leading zeros allowed) is its value when that is at most
  \<open>2 ^ 53\<close>, \<^verbatim>\<open>Infinity\<close> is infinite, and a string whose first character is a printable
  ASCII character that cannot begin a numeric literal is \<^verbatim>\<open>NaN\<close>. For every other pair
  of operands the truth value is what the language gives; the language is not part of the
  sources, so that comparison is the parameter \<open>ge\<close> (the field \<open>coerced_ge\<close> of the
  environment below).
\<close>

datatype jsnum = NaN | Finite nat | PosInfinity

definition max_safe :: nat where
  "max_safe = 9007199254740992"

definition StringToNumber :: "string \<Rightarrow> jsnum option" where
  "StringToNumber s =
     (if s = [] then Some (Finite 0)
      else if list_all is_digit s then
        (if digits_value s \<le> max_safe then Some (Finite (digits_value s)) else None)
      else if s = ''Infinity'' then Some PosInfinity
      else if (33::nat) \<le> of_char (hd s) \<and> of_char (hd s) \<le> (126::nat)
              \<and> \<not> is_digit (hd s) \<and> hd s \<notin> set ''+-.I'' then Some NaN
      else None)"

fun js_ge :: "(string \<Rightarrow> val \<Rightarrow> bool) \<Rightarrow> key \<Rightarrow> val \<Rightarrow> bool outcome" where
  "js_ge ge (Sym y) v = Throw TypeError"
| "js_ge ge (Str s) Undefined = Normal False"
| "js_ge ge (Str s) (Num n) =
     Normal (case StringToNumber s of
               None \<Rightarrow> ge s (Num n)
             | Some NaN \<Rightarrow> False
             | Some PosInfinity \<Rightarrow> True
             | Some (Finite v) \<Rightarrow> (if n \<le> max_safe then n \<le> v else ge s (Num n)))"
| "js_ge ge (Str s) (EffectRef e) = Normal (ge s (EffectRef e))"

subsection \<open>Effects, options and the module state\<close>

text \<open>
  The callbacks of the options bundle belong to the caller. Each is known by a number, and
  calling it is recorded in the trace of the state; what a callback does beyond that is
  not part of the core.
\<close>

record ReactiveEffectOptions =
  lazy :: bool
  scheduler :: "nat option"
  onTrack :: "nat option"
  onTrigger :: "nat option"
  onStop :: "nat option"
  opt_allowRecurse :: bool

record ReactiveEffect =
  effect_id :: nat
  active :: bool
  raw :: nat
  deps :: "nat list"
  options :: ReactiveEffectOptions
  allowRecurse :: bool

datatype event =
    Called nat
  | Scheduled nat nat
  | OnTrack nat nat target TrackOpTypes key
  | OnTrigger nat nat target "key option" TriggerOpTypes val
  | OnStop nat

record state =
  targetMap :: "target \<Rightarrow> (key \<times> nat) list option"
  depsets :: "nat \<Rightarrow> nat list"
  next_dep :: nat
  effects :: "nat \<Rightarrow> ReactiveEffect"
  uid :: nat
  effectStack :: "nat list"
  activeEffect :: "nat option"
  shouldTrack :: bool
  trackStack :: "bool list"
  log :: "event list"

definition EMPTY_OBJ :: ReactiveEffectOptions where
  "EMPTY_OBJ = \<lparr>lazy = False, scheduler = None, onTrack = None, onTrigger = None,
     onStop = None, opt_allowRecurse = False\<rparr>"

definition no_effect :: ReactiveEffect where
  "no_effect = \<lparr>effect_id = 0, active = False, raw = 0, deps = [], options = EMPTY_OBJ,
     allowRecurse = False\<rparr>"

text \<open>The state when the module has been loaded.\<close>

definition init :: state where
  "init = \<lparr>targetMap = (\<lambda>t. None), depsets = (\<lambda>d. []), next_dep = 0,
     effects = (\<lambda>e. no_effect), uid = 0, effectStack = [], activeEffect = None,
     shouldTrack = True, trackStack = [], log = []\<rparr>"

subsection \<open>What a computation does\<close>

text \<open>
  A wrapped computation is the caller's code. What the core sees of it is the sequence of
  calls it makes into the core, whether it throws, and the value it returns. A function
  is known by a number; the environment gives its body, the build flag \<^verbatim>\<open>__DEV__\<close>, and
  the language's comparison of a string with a value where \<open>js_ge\<close> does not compute it.
\<close>

datatype fn_arg = Fn nat | EffectFn nat

datatype action =
    Track target TrackOpTypes key
  | Trigger target TriggerOpTypes "key option" val
  | PauseTracking
  | EnableTracking
  | ResetTracking
  | Stop nat
  | Invoke nat
  | Effect fn_arg ReactiveEffectOptions
  | ThrowError val

record env =
  DEV :: bool
  prog :: "nat \<Rightarrow> action list \<times> val"
  coerced_ge :: "string \<Rightarrow> val \<Rightarrow> bool"

subsection \<open>\<^verbatim>\<open>cleanup\<close>, \<^verbatim>\<open>stop\<close> and the tracking switch\<close>

fun delete_from :: "nat \<Rightarrow> nat list \<Rightarrow> (nat \<Rightarrow> nat list) \<Rightarrow> nat \<Rightarrow> nat list" where
  "delete_from e [] h = h"
| "delete_from e (d # ds) h = delete_from e ds (h(d := removeAll e (h d)))"

definition cleanup :: "nat \<Rightarrow> state \<Rightarrow> state" where
  "cleanup e s =
     (let ds = deps (effects s e) in
      if ds \<noteq> [] then
        s\<lparr>depsets := delete_from e ds (depsets s),
          effects := (effects s)(e := (effects s e)\<lparr>deps := []\<rparr>)\<rparr>
      else s)"

definition stop :: "nat \<Rightarrow> state \<Rightarrow> state" where
  "stop e s =
     (if active (effects s e) then
        let s1 = cleanup e s;
            s2 = (case onStop (options (effects s1 e)) of
                    Some h \<Rightarrow> s1\<lparr>log := log s1 @ [OnStop h]\<rparr>
                  | None \<Rightarrow> s1)
        in s2\<lparr>effects := (effects s2)(e := (effects s2 e)\<lparr>active := False\<rparr>)\<rparr>
      else s)"

definition pauseTracking :: "state \<Rightarrow> state" where
  "pauseTracking s = s\<lparr>trackStack := trackStack s @ [shouldTrack s], shouldTrack := False\<rparr>"

definition enableTracking :: "state \<Rightarrow> state" where
  "enableTracking s = s\<lparr>trackStack := trackStack s @ [shouldTrack s], shouldTrack := True\<rparr>"

definition resetTracking :: "state \<Rightarrow> state" where
  "resetTracking s =
     (if trackStack s = [] then s\<lparr>shouldTrack := True\<rparr>
      else s\<lparr>shouldTrack := last (trackStack s), trackStack := butlast (trackStack s)\<rparr>)"

subsection \<open>\<^verbatim>\<open>track\<close>\<close>

definition track :: "env \<Rightarrow> target \<Rightarrow> TrackOpTypes \<Rightarrow> key \<Rightarrow> state \<Rightarrow> state" where
  "track E t ty k s =
     (case activeEffect s of
        None \<Rightarrow> s
      | Some e \<Rightarrow>
          if \<not> shouldTrack s then s
          else
            let (depsMap, s1) =
                  (case targetMap s t of
                     None \<Rightarrow> ([], s\<lparr>targetMap := (targetMap s)(t := Some [])\<rparr>)
                   | Some m \<Rightarrow> (m, s));
                (dep, s2) =
                  (case map_of depsMap k of
                     None \<Rightarrow>
                       (next_dep s1,
                        s1\<lparr>targetMap := (targetMap s1)(t := Some (depsMap @ [(k, next_dep s1)])),
                           depsets := (depsets s1)(next_dep s1 := []),
                           next_dep := Suc (next_dep s1)\<rparr>)
                   | Some d \<Rightarrow> (d, s1))
            in
              if e \<notin> set (depsets s2 dep) then
                let s3 = s2\<lparr>depsets := (depsets s2)(dep := depsets s2 dep @ [e]),
                            effects := (effects s2)
                              (e := (effects s2 e)\<lparr>deps := deps (effects s2 e) @ [dep]\<rparr>)\<rparr>
                in (case onTrack (options (effects s3 e)) of
                      Some h \<Rightarrow>
                        if DEV E then s3\<lparr>log := log s3 @ [OnTrack h e t ty k]\<rparr> else s3
                    | None \<Rightarrow> s3)
              else s2)"

subsection \<open>\<^verbatim>\<open>trigger\<close>: collecting the effects to run\<close>

definition set_add :: "nat \<Rightarrow> nat list \<Rightarrow> nat list" where
  "set_add e es = (if e \<in> set es then es else es @ [e])"

definition add :: "state \<Rightarrow> nat list \<Rightarrow> nat option \<Rightarrow> nat list" where
  "add s es effectsToAdd =
     (case effectsToAdd of
        None \<Rightarrow> es
      | Some d \<Rightarrow>
          foldl (\<lambda>acc e. if activeEffect s \<noteq> Some e \<or> allowRecurse (effects s e)
                         then set_add e acc else acc)
                es (depsets s d))"

fun add_all :: "state \<Rightarrow> (key \<times> nat) list \<Rightarrow> nat list \<Rightarrow> nat list" where
  "add_all s [] es = es"
| "add_all s ((k, d) # m) es = add_all s m (add s es (Some d))"

fun add_length ::
  "env \<Rightarrow> state \<Rightarrow> val \<Rightarrow> (key \<times> nat) list \<Rightarrow> nat list \<Rightarrow> nat list outcome" where
  "add_length E s newValue [] es = Normal es"
| "add_length E s newValue ((k, d) # m) es =
     (if k = Str ''length'' then add_length E s newValue m (add s es (Some d))
      else case js_ge (coerced_ge E) k newValue of
             Normal b \<Rightarrow> add_length E s newValue m (if b then add s es (Some d) else es)
           | Throw x \<Rightarrow> Throw x
           | OutOfFuel \<Rightarrow> OutOfFuel)"

definition trigger_effects ::
  "env \<Rightarrow> state \<Rightarrow> target \<Rightarrow> TriggerOpTypes \<Rightarrow> key option \<Rightarrow> val \<Rightarrow> (key \<times> nat) list
     \<Rightarrow> nat list outcome"
where
  "trigger_effects E s t ty key newValue depsMap =
     (if ty = CLEAR then Normal (add_all s depsMap [])
      else if key = Some (Str ''length'') \<and> isArray t then add_length E s newValue depsMap []
      else
        let es1 = (case key of Some k \<Rightarrow> add s [] (map_of depsMap k) | None \<Rightarrow> [])
        in Normal
            (case ty of
               ADD \<Rightarrow>
                 if \<not> isArray t then
                   let es2 = add s es1 (map_of depsMap (Sym ITERATE_KEY))
                   in if isMap t then add s es2 (map_of depsMap (Sym MAP_KEY_ITERATE_KEY))
                      else es2
                 else if isIntegerKey key then add s es1 (map_of depsMap (Str ''length''))
                 else es1
             | DELETE \<Rightarrow>
                 if \<not> isArray t then
                   let es2 = add s es1 (map_of depsMap (Sym ITERATE_KEY))
                   in if isMap t then add s es2 (map_of depsMap (Sym MAP_KEY_ITERATE_KEY))
                      else es2
                 else es1
             | SET \<Rightarrow>
                 if isMap t then add s es1 (map_of depsMap (Sym ITERATE_KEY)) else es1
             | CLEAR \<Rightarrow> es1))"

subsection \<open>Creating effects\<close>

definition createReactiveEffect :: "nat \<Rightarrow> ReactiveEffectOptions \<Rightarrow> state \<Rightarrow> nat \<times> state" where
  "createReactiveEffect fn opts s =
     (uid s,
      s\<lparr>effects := (effects s)
           (uid s := \<lparr>effect_id = uid s, active = True, raw = fn, deps = [],
                      options = opts, allowRecurse = opt_allowRecurse opts\<rparr>),
        uid := Suc (uid s)\<rparr>)"

subsection \<open>Running effects\<close>

text \<open>
  \<open>reactiveEffect\<close> is the wrapper that \<^verbatim>\<open>createReactiveEffect\<close> builds; \<open>run\<close> is
  the local function of \<^verbatim>\<open>trigger\<close> that processes one collected effect and
  \<open>run_effects\<close> is \<^verbatim>\<open>effects.forEach(run)\<close>. All of them reach the caller's code
  only through the call \<^verbatim>\<open>fn()\<close> of a wrapped computation, so they take that call as the
  parameter \<open>call\<close>; \<open>call_fn\<close> below supplies it. A \<^verbatim>\<open>finally\<close> block runs on every
  way out, so \<open>end_run\<close> is applied whatever the computation came to.
\<close>

type_synonym result = "val outcome \<times> state"

type_synonym trigger_args = "target \<times> TriggerOpTypes \<times> key option \<times> val"

definition begin_run :: "nat \<Rightarrow> state \<Rightarrow> state" where
  "begin_run e s =
     (let s1 = enableTracking s;
          s2 = s1\<lparr>effectStack := effectStack s1 @ [e]\<rparr>
      in s2\<lparr>activeEffect := Some e\<rparr>)"

definition end_run :: "state \<Rightarrow> state" where
  "end_run s =
     (let s1 = s\<lparr>effectStack := butlast (effectStack s)\<rparr>;
          s2 = resetTracking s1
      in s2\<lparr>activeEffect :=
              (if effectStack s2 = [] then None else Some (last (effectStack s2)))\<rparr>)"

definition reactiveEffect :: "(nat \<Rightarrow> state \<Rightarrow> result) \<Rightarrow> nat \<Rightarrow> state \<Rightarrow> result" where
  "reactiveEffect call e s =
     (if \<not> active (effects s e) then
        (case scheduler (options (effects s e)) of
           Some h \<Rightarrow> (Normal Undefined, s)
         | None \<Rightarrow> call (raw (effects s e)) s)
      else if e \<notin> set (effectStack s) then
        (case call (raw (effects s e)) (begin_run e (cleanup e s)) of
           (r, s') \<Rightarrow> (r, end_run s'))
      else (Normal Undefined, s))"

definition run ::
  "(nat \<Rightarrow> state \<Rightarrow> result) \<Rightarrow> env \<Rightarrow> trigger_args \<Rightarrow> nat \<Rightarrow> state \<Rightarrow> result" where
  "run call E c e s =
     (let s1 = (case onTrigger (options (effects s e)) of
                  Some h \<Rightarrow>
                    if DEV E
                    then s\<lparr>log := log s @ [OnTrigger h e (fst c) (fst (snd (snd c)))
                                              (fst (snd c)) (snd (snd (snd c)))]\<rparr>
                    else s
                | None \<Rightarrow> s)
      in case scheduler (options (effects s1 e)) of
           Some h \<Rightarrow> (Normal Undefined, s1\<lparr>log := log s1 @ [Scheduled h e]\<rparr>)
         | None \<Rightarrow> reactiveEffect call e s1)"

fun run_effects ::
  "(nat \<Rightarrow> state \<Rightarrow> result) \<Rightarrow> env \<Rightarrow> trigger_args \<Rightarrow> nat list \<Rightarrow> state \<Rightarrow> result" where
  "run_effects call E c [] s = (Normal Undefined, s)"
| "run_effects call E c (e # es) s =
     (case run call E c e s of
        (Normal u, s') \<Rightarrow> run_effects call E c es s'
      | (r, s') \<Rightarrow> (r, s'))"

definition trigger ::
  "(nat \<Rightarrow> state \<Rightarrow> result) \<Rightarrow> env \<Rightarrow> target \<Rightarrow> TriggerOpTypes \<Rightarrow> key option \<Rightarrow> val
     \<Rightarrow> state \<Rightarrow> result" where
  "trigger call E t ty k v s =
     (case targetMap s t of
        None \<Rightarrow> (Normal Undefined, s)
      | Some depsMap \<Rightarrow>
          (case trigger_effects E s t ty k v depsMap of
             Normal es \<Rightarrow> run_effects call E (t, ty, k, v) es s
           | Throw x \<Rightarrow> (Throw x, s)
           | OutOfFuel \<Rightarrow> (OutOfFuel, s)))"

definition effect ::
  "(nat \<Rightarrow> state \<Rightarrow> result) \<Rightarrow> fn_arg \<Rightarrow> ReactiveEffectOptions \<Rightarrow> state \<Rightarrow> result" where
  "effect call fn opts s =
     (let f = (case fn of Fn g \<Rightarrow> g | EffectFn e0 \<Rightarrow> raw (effects s e0));
          (e, s1) = createReactiveEffect f opts s
      in if \<not> lazy opts then
           (case reactiveEffect call e s1 of
              (Normal u, s2) \<Rightarrow> (Normal (EffectRef e), s2)
            | (r, s2) \<Rightarrow> (r, s2))
         else (Normal (EffectRef e), s1))"

text \<open>
  The body of a computation, one call into the core after the other; a call that does
  not return normally ends the body with what it came to.
\<close>

fun exec :: "(nat \<Rightarrow> state \<Rightarrow> result) \<Rightarrow> env \<Rightarrow> action list \<Rightarrow> state \<Rightarrow> result" where
  "exec call E [] s = (Normal Undefined, s)"
| "exec call E (Track t ty k # as) s = exec call E as (track E t ty k s)"
| "exec call E (PauseTracking # as) s = exec call E as (pauseTracking s)"
| "exec call E (EnableTracking # as) s = exec call E as (enableTracking s)"
| "exec call E (ResetTracking # as) s = exec call E as (resetTracking s)"
| "exec call E (Stop e # as) s = exec call E as (stop e s)"
| "exec call E (ThrowError v # as) s = (Throw (UserError v), s)"
| "exec call E (Trigger t ty k v # as) s =
     (case trigger call E t ty k v s of
        (Normal u, s') \<Rightarrow> exec call E as s'
      | (r, s') \<Rightarrow> (r, s'))"
| "exec call E (Invoke e # as) s =
     (case reactiveEffect call e s of
        (Normal u, s') \<Rightarrow> exec call E as s'
      | (r, s') \<Rightarrow> (r, s'))"
| "exec call E (Effect fn opts # as) s =
     (case effect call fn opts s of
        (Normal u, s') \<Rightarrow> exec call E as s'
      | (r, s') \<Rightarrow> (r, s'))"

text \<open>
  Calling the function \<open>f\<close>: the call is recorded, the body runs, and the function's
  value is returned. The budget \<open>n\<close> bounds how deep computations may call computations;
  a call beyond it is \<open>OutOfFuel\<close>.
\<close>

primrec call_fn :: "env \<Rightarrow> nat \<Rightarrow> nat \<Rightarrow> state \<Rightarrow> result" where
  "call_fn E 0 = (\<lambda>f s. (OutOfFuel, s))"
| "call_fn E (Suc n) =
     (\<lambda>f s. case exec (call_fn E n) E (fst (prog E f)) (s\<lparr>log := log s @ [Called f]\<rparr>) of
               (Normal v, s') \<Rightarrow> (Normal (snd (prog E f)), s')
             | (r, s') \<Rightarrow> (r, s'))"

section \<open>Notions of the specification\<close>

text \<open>
  The effects that \<^verbatim>\<open>add\<close> lets through: every effect but the running one, and the
  running one too when it allows recursion.
\<close>

definition keep :: "state \<Rightarrow> nat \<Rightarrow> bool" where
  "keep s e = (activeEffect s \<noteq> Some e \<or> allowRecurse (effects s e))"

text \<open>A list without its repetitions, each element where it is seen first.\<close>

fun first_seen :: "nat list \<Rightarrow> nat list" where
  "first_seen [] = []"
| "first_seen (x # xs) = x # first_seen (filter (\<lambda>y. y \<noteq> x) xs)"

text \<open>
  The specification's merge of dependency sets \<open>ds\<close> (given by their addresses, in the
  order in which they are matched): one collection without repetition, in first-seen
  order, of the members that are let through.
\<close>

definition merged :: "state \<Rightarrow> nat list \<Rightarrow> nat list" where
  "merged s ds = first_seen (filter (keep s) (concat (map (depsets s) ds)))"

text \<open>The dependency set registered for a key of a dependency map, if any.\<close>

definition dep_of :: "(key \<times> nat) list \<Rightarrow> key \<Rightarrow> nat list" where
  "dep_of depsMap k = (case map_of depsMap k of None \<Rightarrow> [] | Some d \<Rightarrow> [d])"

text \<open>
  The table of section 4.4 of the specification for the default path: the sets that a
  Set, Add or Delete of a key invalidates.
\<close>

definition default_path_sets ::
  "target \<Rightarrow> TriggerOpTypes \<Rightarrow> key option \<Rightarrow> (key \<times> nat) list \<Rightarrow> nat list" where
  "default_path_sets t ty key depsMap =
     (case key of None \<Rightarrow> [] | Some k \<Rightarrow> dep_of depsMap k) @
     (case ty of
        ADD \<Rightarrow>
          if isArray t then
            (if isIntegerKey key then dep_of depsMap (Str ''length'') else [])
          else dep_of depsMap (Sym ITERATE_KEY) @
               (if isMap t then dep_of depsMap (Sym MAP_KEY_ITERATE_KEY) else [])
      | DELETE \<Rightarrow>
          if isArray t then []
          else dep_of depsMap (Sym ITERATE_KEY) @
               (if isMap t then dep_of depsMap (Sym MAP_KEY_ITERATE_KEY) else [])
      | SET \<Rightarrow> if isMap t then dep_of depsMap (Sym ITERATE_KEY) else []
      | CLEAR \<Rightarrow> [])"

text \<open>
  The sets that the specification names for a change of an array's length: the set of
  \<^verbatim>\<open>'length'\<close> and the set of every integer index that is at least the new length.
\<close>

definition length_sets_spec :: "val \<Rightarrow> (key \<times> nat) list \<Rightarrow> nat list" where
  "length_sets_spec newValue depsMap =
     map snd (filter (\<lambda>(k, d). k = Str ''length'' \<or>
                 (case (k, newValue) of
                    (Str str, Num n) \<Rightarrow> isIntegerKey (Some k) \<and> n \<le> digits_value str
                  | _ \<Rightarrow> False)) depsMap)"

text \<open>The sets that the code takes on that path: those whose key compares as true.\<close>

definition length_sets_code :: "env \<Rightarrow> val \<Rightarrow> (key \<times> nat) list \<Rightarrow> nat list" where
  "length_sets_code E newValue depsMap =
     map snd (filter (\<lambda>(k, d). k = Str ''length'' \<or> js_ge (coerced_ge E) k newValue = Normal True)
                depsMap)"

text \<open>A dependency map all of whose keys are strings.\<close>

definition string_keys :: "(key \<times> nat) list \<Rightarrow> bool" where
  "string_keys depsMap = list_all (\<lambda>(k, d). case k of Str str \<Rightarrow> True | Sym y \<Rightarrow> False) depsMap"

text \<open>
  The dependency sets that qualify for a call of \<^verbatim>\<open>trigger\<close>, in the order in which they
  are matched: all sets of the object on Clear, the sets of the length path on a change of
  an array's length, and the sets of the default path otherwise.
\<close>

definition qualifying_sets ::
  "env \<Rightarrow> target \<Rightarrow> TriggerOpTypes \<Rightarrow> key option \<Rightarrow> val \<Rightarrow> (key \<times> nat) list \<Rightarrow> nat list" where
  "qualifying_sets E t ty key newValue depsMap =
     (if ty = CLEAR then map snd depsMap
      else if key = Some (Str ''length'') \<and> isArray t then length_sets_code E newValue depsMap
      else default_path_sets t ty key depsMap)"

text \<open>The dependency set registered for a key of an object, and its members.\<close>

definition dep_at :: "state \<Rightarrow> target \<Rightarrow> key \<Rightarrow> nat option" where
  "dep_at s t k = (case targetMap s t of None \<Rightarrow> None | Some m \<Rightarrow> map_of m k)"

definition members :: "state \<Rightarrow> target \<Rightarrow> key \<Rightarrow> nat list" where
  "members s t k = (case dep_at s t k of None \<Rightarrow> [] | Some d \<Rightarrow> depsets s d)"

text \<open>What \<^verbatim>\<open>track\<close> reports to the \<^verbatim>\<open>onTrack\<close> callback for a new edge.\<close>

definition onTrack_events :: "env \<Rightarrow> state \<Rightarrow> nat \<Rightarrow> target \<Rightarrow> TrackOpTypes \<Rightarrow> key \<Rightarrow> event list" where
  "onTrack_events E s e t ty k =
     (case onTrack (options (effects s e)) of
        Some h \<Rightarrow> if DEV E then [OnTrack h e t ty k] else []
      | None \<Rightarrow> [])"

text \<open>What \<^verbatim>\<open>trigger\<close> reports to the \<^verbatim>\<open>onTrigger\<close> callback of an effect it processes.\<close>

definition onTrigger_events :: "env \<Rightarrow> state \<Rightarrow> nat \<Rightarrow> trigger_args \<Rightarrow> event list" where
  "onTrigger_events E s e c =
     (case onTrigger (options (effects s e)) of
        Some h \<Rightarrow>
          if DEV E then [OnTrigger h e (fst c) (fst (snd (snd c))) (fst (snd c)) (snd (snd (snd c)))]
          else []
      | None \<Rightarrow> [])"

text \<open>
  A computation that only reads: its calls into the core are \<^verbatim>\<open>track\<close> calls.
  \<open>read_keys\<close> are the objects and keys it reads.
\<close>

definition read_actions :: "(target \<times> TrackOpTypes \<times> key) list \<Rightarrow> action list" where
  "read_actions reads = map (\<lambda>(t, ty, k). Track t ty k) reads"

definition read_keys :: "(target \<times> TrackOpTypes \<times> key) list \<Rightarrow> (target \<times> key) set" where
  "read_keys reads = (\<lambda>(t, ty, k). (t, k)) ` set reads"

text \<open>How often the \<^verbatim>\<open>onTrack\<close> callback has been called for an effect, an object and a key.\<close>

fun onTrack_calls :: "nat \<Rightarrow> target \<Rightarrow> key \<Rightarrow> event list \<Rightarrow> nat" where
  "onTrack_calls e t k [] = 0"
| "onTrack_calls e t k (OnTrack h e' t' ty k' # evs) =
     (if e' = e \<and> t' = t \<and> k' = k then Suc (onTrack_calls e t k evs)
      else onTrack_calls e t k evs)"
| "onTrack_calls e t k (ev # evs) = onTrack_calls e t k evs"

text \<open>
  The effects \<open>es\<close> are processed in order from the state \<open>s\<close> with the result
  \<open>res\<close>: the first \<open>j\<close> of them have each been processed once, each from the state
  its predecessor left, and have returned; either these are all and the result is normal,
  or the next one did not return normally, its outcome is the result, and the effects after
  it have not been processed.
\<close>

definition processed_in_order ::
  "(nat \<Rightarrow> state \<Rightarrow> result) \<Rightarrow> env \<Rightarrow> trigger_args \<Rightarrow> nat list \<Rightarrow> state \<Rightarrow> result \<Rightarrow> bool" where
  "processed_in_order call E c es s res =
     (\<exists>j ss. j \<le> length es \<and> length ss = Suc j \<and> ss ! 0 = s
        \<and> (\<forall>i<j. \<exists>u. run call E c (es ! i) (ss ! i) = (Normal u, ss ! Suc i))
        \<and> (if j = length es then res = (Normal Undefined, ss ! j)
           else (\<forall>u. fst res \<noteq> Normal u) \<and> run call E c (es ! j) (ss ! j) = res))"

section \<open>Invariants and relations between states\<close>

text \<open>
  The invariants of the module state between operations. \<open>membership_inv\<close>: an
  effect is a member of a dependency set exactly when the set is listed in the effect's
  \<^verbatim>\<open>deps\<close>. \<open>alloc_inv\<close>: nothing refers to a set or an effect that has not been
  created, and the running effects have been created. \<open>registry_inv\<close>: the registry
  holds created sets, one per object and key.
\<close>

definition membership_inv :: "state \<Rightarrow> bool" where
  "membership_inv s = (\<forall>e d. (e \<in> set (depsets s d)) = (d \<in> set (deps (effects s e))))"

definition alloc_inv :: "state \<Rightarrow> bool" where
  "alloc_inv s =
     ((\<forall>d. next_dep s \<le> d \<longrightarrow> depsets s d = [])
      \<and> (\<forall>e. uid s \<le> e \<longrightarrow> deps (effects s e) = [] \<and> \<not> active (effects s e))
      \<and> (\<forall>e \<in> set (effectStack s). e < uid s)
      \<and> (\<forall>e. activeEffect s = Some e \<longrightarrow> e < uid s))"

definition registry_inv :: "state \<Rightarrow> bool" where
  "registry_inv s =
     ((\<forall>t k d. dep_at s t k = Some d \<longrightarrow> d < next_dep s)
      \<and> (\<forall>t k t' k' d. dep_at s t k = Some d \<longrightarrow> dep_at s t' k' = Some d \<longrightarrow> t = t' \<and> k = k'))"

definition state_inv :: "state \<Rightarrow> bool" where
  "state_inv s = (membership_inv s \<and> alloc_inv s \<and> registry_inv s)"

text \<open>
  A relation between the state before and the state after that every step of the core
  keeps: it is reflexive and transitive, every operation that does not call a computation
  is in it, and a run that is in it from its prepared state to the state the computation
  leaves is in it from start to end. \<open>call_ok\<close>: the call of a computation is in it.
\<close>

definition step_closed :: "(state \<Rightarrow> state \<Rightarrow> bool) \<Rightarrow> bool" where
  "step_closed R =
     ((\<forall>s. R s s)
      \<and> (\<forall>s s' s''. R s s' \<longrightarrow> R s' s'' \<longrightarrow> R s s'')
      \<and> (\<forall>E t ty k s. R s (track E t ty k s))
      \<and> (\<forall>s. R s (pauseTracking s))
      \<and> (\<forall>s. R s (enableTracking s))
      \<and> (\<forall>s. R s (resetTracking s))
      \<and> (\<forall>e s. R s (stop e s))
      \<and> (\<forall>s l. R s (s\<lparr>log := l\<rparr>))
      \<and> (\<forall>f opts s. R s (snd (createReactiveEffect f opts s)))
      \<and> (\<forall>e s s'. active (effects s e) \<longrightarrow> e \<notin> set (effectStack s) \<longrightarrow>
            R (begin_run e (cleanup e s)) s' \<longrightarrow> R s (end_run s')))"

definition call_ok :: "(state \<Rightarrow> state \<Rightarrow> bool) \<Rightarrow> (nat \<Rightarrow> state \<Rightarrow> result) \<Rightarrow> bool" where
  "call_ok R call = (\<forall>f s. R s (snd (call f s)))"

text \<open>The two relations used below: the invariants are kept, and the effect stack is left as it was.\<close>

definition inv_rel :: "state \<Rightarrow> state \<Rightarrow> bool" where
  "inv_rel s s' = (state_inv s \<longrightarrow> state_inv s')"


text \<open>No effect is created twice, and an effect that is inactive stays inactive.\<close>

definition inactive_rel :: "state \<Rightarrow> state \<Rightarrow> bool" where
  "inactive_rel s s' =
     (uid s \<le> uid s' \<and> (\<forall>e<uid s. \<not> active (effects s e) \<longrightarrow> \<not> active (effects s' e)))"

section \<open>Example programs\<close>

definition obj :: target where
  "obj = Target PlainObject 0"

definition arr :: target where
  "arr = Target ArrayObject 1"

text \<open>
  Function 0 stops the effect 0 and then reads \<^verbatim>\<open>obj.a\<close>; function 1 reads \<^verbatim>\<open>obj.a\<close>
  and throws; function 2 reads \<^verbatim>\<open>obj.a\<close>; function 3 reads a symbol-keyed property of
  the array; function 4 reads \<^verbatim>\<open>arr['007']\<close>; function 5 pauses tracking and throws;
  function 6 iterates the keys of \<^verbatim>\<open>obj\<close> and reads \<^verbatim>\<open>obj.a\<close>; function 7 calls the
  effect 0; function 8 reads the length, the elements 1 and 5 and the property \<^verbatim>\<open>foo\<close>
  of the array. No example consults the comparison that the environment supplies: the
  keys that the examples compare with a length are \<^verbatim>\<open>'1'\<close>, \<^verbatim>\<open>'5'\<close>, \<^verbatim>\<open>'007'\<close> and
  \<^verbatim>\<open>'foo'\<close>, whose comparison \<open>js_ge\<close> computes; a constant stands in the field, and
  the examples of the length path are stated for every comparison in its place.
\<close>

definition example_prog :: "nat \<Rightarrow> action list \<times> val" where
  "example_prog = (\<lambda>f. ([], Undefined))
      (0 := ([Stop 0, Track obj GET (Str ''a'')], Num 1),
       1 := ([Track obj GET (Str ''a''), ThrowError (Num 7)], Undefined),
       2 := ([Track obj GET (Str ''a'')], Num 2),
       3 := ([Track arr GET (Sym (UserSymbol 0))], Num 3),
       4 := ([Track arr GET (Str ''007'')], Num 4),
       5 := ([PauseTracking, ThrowError (Num 7)], Num 5),
       6 := ([Track obj ITERATE (Sym ITERATE_KEY), Track obj GET (Str ''a'')], Num 6),
       7 := ([Invoke 0], Num 7),
       8 := ([Track arr GET (Str ''length''), Track arr GET (Str ''1''),
              Track arr GET (Str ''5''), Track arr GET (Str ''foo'')], Num 8))"

definition dev_env :: env where
  "dev_env = \<lparr>DEV = True, prog = example_prog, coerced_ge = (\<lambda>str v. False)\<rparr>"

definition prod_env :: env where
  "prod_env = \<lparr>DEV = False, prog = example_prog, coerced_ge = (\<lambda>str v. False)\<rparr>"

text \<open>The state after \<^verbatim>\<open>effect(f)\<close> with default options in a fresh module.\<close>

definition after_effect :: "nat \<Rightarrow> state" where
  "after_effect f = snd (effect (call_fn dev_env (Suc (Suc 0))) (Fn f) EMPTY_OBJ init)"

text \<open>Options with an \<^verbatim>\<open>onTrack\<close> callback, and an effect created with them in a production build.\<close>

definition onTrack_opts :: ReactiveEffectOptions where
  "onTrack_opts = EMPTY_OBJ\<lparr>onTrack := Some 0\<rparr>"

definition after_effect_prod :: state where
  "after_effect_prod = snd (effect (call_fn prod_env (Suc (Suc 0))) (Fn 2) onTrack_opts init)"

text \<open>An effect that has been created with default options and is about to run its computation.\<close>

definition running :: "nat \<Rightarrow> state" where
  "running f = begin_run 0 (snd (createReactiveEffect f EMPTY_OBJ init))"


text \<open>
  Effect 0 is created lazily with function 0 and run once: its computation stops the
  effect and then reads \<^verbatim>\<open>obj.a\<close>.
\<close>

definition lazy_opts :: ReactiveEffectOptions where
  "lazy_opts = EMPTY_OBJ\<lparr>lazy := True\<rparr>"

definition self_stopped :: state where
  "self_stopped =
     snd (reactiveEffect (call_fn dev_env (Suc (Suc 0))) 0
            (snd (effect (call_fn dev_env (Suc (Suc 0))) (Fn 0) lazy_opts init)))"


text \<open>
  Effect 0 (function 6) has iterated \<^verbatim>\<open>obj\<close> and read \<^verbatim>\<open>obj.a\<close>; effect 1 (function 2)
  has read \<^verbatim>\<open>obj.a\<close>.
\<close>

definition two_effects :: state where
  "two_effects =
     snd (effect (call_fn dev_env (Suc (Suc 0))) (Fn 2) EMPTY_OBJ
            (snd (effect (call_fn dev_env (Suc (Suc 0))) (Fn 6) EMPTY_OBJ init)))"



text \<open>
  Two effects subscribed to \<^verbatim>\<open>obj.a\<close>: effect 0 (function 1, which throws after reading)
  and effect 1 (function 2).
\<close>

definition two_subscribers :: state where
  "two_subscribers =
     snd (effect (call_fn dev_env (Suc (Suc 0))) (Fn 2) EMPTY_OBJ
            (snd (effect (call_fn dev_env (Suc (Suc 0))) (Fn 1) EMPTY_OBJ init)))"

section \<open>Calling a computation\<close>

lemma call_fn_0 [simp]: "call_fn E 0 f s = (OutOfFuel, s)"
  by simp

lemma call_fn_Suc [simp]:
  "call_fn E (Suc n) f s =
     (case exec (call_fn E n) E (fst (prog E f)) (s\<lparr>log := log s @ [Called f]\<rparr>) of
        (Normal v, s') \<Rightarrow> (Normal (snd (prog E f)), s')
      | (r, s') \<Rightarrow> (r, s'))"
  by simp

declare call_fn.simps [simp del]

section \<open>Merging dependency sets\<close>

lemma set_first_seen [simp]: "set (first_seen xs) = set xs"
  by (induction xs rule: first_seen.induct) auto

lemma distinct_first_seen [simp]: "distinct (first_seen xs)"
  by (induction xs rule: first_seen.induct) auto

lemma first_seen_filter: "first_seen (filter P xs) = filter P (first_seen xs)"
proof (induction xs rule: first_seen.induct)
  case 1
  then show ?case by simp
next
  case (2 x xs)
  have a: "filter (\<lambda>y. y \<noteq> x) (filter P xs) = filter P (filter (\<lambda>y. y \<noteq> x) xs)"
    by (simp add: conj_commute)
  have b: "\<not> P x \<Longrightarrow> filter P (filter (\<lambda>y. y \<noteq> x) xs) = filter P xs"
    unfolding filter_filter by (rule filter_cong) auto
  show ?case
  proof (cases "P x")
    case True
    then show ?thesis using 2 a by simp
  next
    case False
    then show ?thesis using 2 b by simp
  qed
qed

lemma first_seen_append:
  "first_seen (xs @ ys) = first_seen xs @ first_seen (filter (\<lambda>y. y \<notin> set xs) ys)"
proof (induction xs arbitrary: ys rule: first_seen.induct)
  case 1
  then show ?case by simp
next
  case (2 x xs)
  have f: "filter (\<lambda>y. y \<notin> set (filter (\<lambda>y. y \<noteq> x) xs)) (filter (\<lambda>y. y \<noteq> x) ys)
        = filter (\<lambda>y. y \<notin> set (x # xs)) ys"
    unfolding filter_filter by (rule filter_cong) auto
  have "first_seen ((x # xs) @ ys)
        = x # first_seen (filter (\<lambda>y. y \<noteq> x) xs @ filter (\<lambda>y. y \<noteq> x) ys)"
    by simp
  also have "\<dots> = x # (first_seen (filter (\<lambda>y. y \<noteq> x) xs)
        @ first_seen (filter (\<lambda>y. y \<notin> set (filter (\<lambda>y. y \<noteq> x) xs)) (filter (\<lambda>y. y \<noteq> x) ys)))"
    by (simp only: 2)
  also have "\<dots> = first_seen (x # xs) @ first_seen (filter (\<lambda>y. y \<notin> set (x # xs)) ys)"
    by (simp only: f first_seen.simps append_Cons)
  finally show ?case .
qed

lemma foldl_set_add:
  "foldl (\<lambda>acc e. if P e then set_add e acc else acc) acc xs
   = acc @ first_seen (filter (\<lambda>x. P x \<and> x \<notin> set acc) xs)"
proof (induction xs arbitrary: acc)
  case Nil
  then show ?case by simp
next
  case (Cons x xs)
  have *: "filter (\<lambda>y. y \<noteq> x) (filter (\<lambda>x. P x \<and> x \<notin> set acc) xs)
         = filter (\<lambda>y. P y \<and> y \<notin> set (acc @ [x])) xs"
    by (induction xs) auto
  show ?case using Cons[of acc] Cons[of "acc @ [x]"] *
    by (auto simp: set_add_def)
qed

lemma add_Some:
  "add s acc (Some d) = acc @ first_seen (filter (\<lambda>x. keep s x \<and> x \<notin> set acc) (depsets s d))"
  unfolding add_def keep_def by (simp add: foldl_set_add)

lemma add_None [simp]: "add s acc None = acc"
  by (simp add: add_def)

lemma foldl_add:
  "foldl (\<lambda>acc d. add s acc (Some d)) acc ds
   = acc @ first_seen (filter (\<lambda>x. keep s x \<and> x \<notin> set acc) (concat (map (depsets s) ds)))"
proof (induction ds arbitrary: acc)
  case Nil
  then show ?case by simp
next
  case (Cons d ds)
  let ?Q = "\<lambda>x. keep s x \<and> x \<notin> set acc"
  let ?A = "filter ?Q (depsets s d)"
  let ?R = "concat (map (depsets s) ds)"
  let ?acc' = "add s acc (Some d)"
  have h: "filter (\<lambda>x. keep s x \<and> x \<notin> set ?acc') ?R
        = filter (\<lambda>y. y \<notin> set ?A) (filter ?Q ?R)"
    unfolding filter_filter add_Some by (rule filter_cong) auto
  have "foldl (\<lambda>acc d. add s acc (Some d)) acc (d # ds)
        = foldl (\<lambda>acc d. add s acc (Some d)) ?acc' ds"
    by simp
  also have "\<dots> = ?acc' @ first_seen (filter (\<lambda>x. keep s x \<and> x \<notin> set ?acc') ?R)"
    by (rule Cons)
  also have "\<dots> = ?acc' @ first_seen (filter (\<lambda>y. y \<notin> set ?A) (filter ?Q ?R))"
    by (simp only: h)
  also have "\<dots> = acc @ first_seen (?A @ filter ?Q ?R)"
    by (simp add: add_Some first_seen_append)
  finally show ?case by simp
qed

lemma merged_eq: "merged s ds = foldl (\<lambda>acc d. add s acc (Some d)) [] ds"
  by (simp add: foldl_add merged_def)

lemma add_map_of:
  "add s acc (map_of depsMap k) = foldl (\<lambda>acc d. add s acc (Some d)) acc (dep_of depsMap k)"
  by (simp add: dep_of_def split: option.splits)

lemma add_all_eq:
  "add_all s depsMap acc = foldl (\<lambda>acc d. add s acc (Some d)) acc (map snd depsMap)"
  by (induction depsMap arbitrary: acc) auto

lemma js_ge_Str: "\<exists>b. js_ge ge (Str str) v = Normal b"
  by (cases v) auto

lemma add_length_eq:
  "string_keys depsMap \<Longrightarrow>
   add_length E s newValue depsMap acc
   = Normal (foldl (\<lambda>acc d. add s acc (Some d)) acc (length_sets_code E newValue depsMap))"
proof (induction depsMap arbitrary: acc)
  case Nil
  then show ?case by (simp add: length_sets_code_def)
next
  case (Cons kd depsMap)
  obtain k d where kd: "kd = (k, d)" by (cases kd)
  have rest: "string_keys depsMap"
    using Cons.prems by (simp add: string_keys_def)
  note IH = Cons.IH [OF rest]
  obtain str where k: "k = Str str"
    using Cons.prems kd by (cases k) (simp_all add: string_keys_def)
  show ?case
  proof (cases "k = Str ''length''")
    case True
    then show ?thesis using IH kd by (simp add: length_sets_code_def)
  next
    case False
    obtain b where "js_ge (coerced_ge E) k newValue = Normal b"
      using js_ge_Str k by blast
    then show ?thesis using IH kd False by (simp add: length_sets_code_def)
  qed
qed

section \<open>Which dependency sets a mutation invalidates\<close>

lemmas run_defs = effect_def createReactiveEffect_def reactiveEffect_def init_def EMPTY_OBJ_def
  begin_run_def end_run_def cleanup_def enableTracking_def resetTracking_def pauseTracking_def
  stop_def track_def trigger_def trigger_effects_def add_def set_add_def run_def Let_def
  StringToNumber_def is_digit_def digits_value_def max_safe_def
  example_prog_def dev_env_def prod_env_def obj_def arr_def after_effect_def

lemma integer_key_ge:
  "isIntegerKey (Some (Str str)) \<Longrightarrow> digits_value str \<le> max_safe \<Longrightarrow> n \<le> max_safe \<Longrightarrow>
   js_ge ge (Str str) (Num n) = Normal (n \<le> digits_value str)"
  by (simp add: StringToNumber_def)

lemma default_path_eq:
  assumes "ty \<noteq> CLEAR" and "\<not> (key = Some (Str ''length'') \<and> isArray t)"
  shows "trigger_effects E s t ty key newValue depsMap
         = Normal (merged s (default_path_sets t ty key depsMap))"
  using assms unfolding trigger_effects_def default_path_sets_def merged_eq
  by (cases ty; cases key; auto simp add: add_map_of Let_def)

lemma trigger_effects_eq:
  assumes "ty \<noteq> CLEAR \<and> key = Some (Str ''length'') \<and> isArray t \<longrightarrow> string_keys depsMap"
  shows "trigger_effects E s t ty key newValue depsMap
         = Normal (merged s (qualifying_sets E t ty key newValue depsMap))"
proof (cases "ty = CLEAR")
  case True
  then show ?thesis
    by (simp add: trigger_effects_def qualifying_sets_def add_all_eq merged_eq)
next
  case nc: False
  show ?thesis
  proof (cases "key = Some (Str ''length'') \<and> isArray t")
    case True
    then have "string_keys depsMap" using assms nc by simp
    then show ?thesis using True nc
      by (simp add: trigger_effects_def qualifying_sets_def add_length_eq merged_eq)
  next
    case False
    have "qualifying_sets E t ty key newValue depsMap = default_path_sets t ty key depsMap"
      using nc False by (auto simp: qualifying_sets_def)
    then show ?thesis
      using default_path_eq[OF nc False, of E s newValue depsMap] by simp
  qed
qed

text \<open>
  Claim C4. On the default path of \<^verbatim>\<open>trigger\<close> (the kind is Set, Add or Delete and the
  key is not \<^verbatim>\<open>'length'\<close> of an array) the effects collected are the merge of the sets of
  the table \<open>default_path_sets\<close>: the set of the key when the key is defined; on Add to
  a non-array the set of the keys-iterated marker, and that of the map-keys-iterated marker
  when the object is map-like; on Add to an array with an integer-index key the set of
  \<^verbatim>\<open>'length'\<close>; on Delete from a non-array the same marker sets as on Add; on Set on a
  map-like object the set of the keys-iterated marker.
\<close>

theorem default_path_table:
  assumes "ty \<noteq> CLEAR" and "\<not> (key = Some (Str ''length'') \<and> isArray t)"
  shows "trigger_effects E s t ty key newValue depsMap
         = Normal (merged s (default_path_sets t ty key depsMap))"
  using assms by (rule default_path_eq)

theorem default_path_table_witness:
  "ADD \<noteq> CLEAR \<and> \<not> (Some (Str ''a'') = Some (Str ''length'') \<and> isArray obj)
   \<and> trigger_effects dev_env (after_effect 2) obj ADD (Some (Str ''a'')) Undefined
         [(Str ''a'', 0)]
       = Normal (merged (after_effect 2)
                  (default_path_sets obj ADD (Some (Str ''a'')) [(Str ''a'', 0)]))"
  using default_path_table
    [of ADD "Some (Str ''a'')" obj dev_env "after_effect 2" Undefined "[(Str ''a'', 0)]"]
  by (simp add: obj_def)

text \<open>
  Claim C6, as the code has it. When \<^verbatim>\<open>trigger\<close> is called on an array with the key
  \<^verbatim>\<open>'length'\<close> and a kind other than Clear, and the keys of the dependency map are
  strings, the effects collected are the merge of the set of \<^verbatim>\<open>'length'\<close> and of the sets
  of the keys that the language's comparison finds at least the new length, in the order
  of the map, and of no other set; this holds whatever the language's comparison is where
  it is not computed here. An integer index of at most \<open>2 ^ 53\<close> compares with a new
  length of at most \<open>2 ^ 53\<close> by its value, so the sets of the integer indices that are at
  least the new length are among them.
\<close>

theorem length_path_sets:
  assumes "isArray t" and "ty \<noteq> CLEAR" and "string_keys depsMap"
  shows "trigger_effects E s t ty (Some (Str ''length'')) newValue depsMap
           = Normal (merged s (length_sets_code E newValue depsMap))
         \<and> (\<forall>str n. isIntegerKey (Some (Str str)) \<and> digits_value str \<le> max_safe
                \<and> n \<le> max_safe
              \<longrightarrow> js_ge (coerced_ge E) (Str str) (Num n) = Normal (n \<le> digits_value str))"
proof
  show "trigger_effects E s t ty (Some (Str ''length'')) newValue depsMap
          = Normal (merged s (length_sets_code E newValue depsMap))"
    using assms unfolding trigger_effects_def merged_eq by (simp add: add_length_eq)
  show "\<forall>str n. isIntegerKey (Some (Str str)) \<and> digits_value str \<le> max_safe \<and> n \<le> max_safe
          \<longrightarrow> js_ge (coerced_ge E) (Str str) (Num n) = Normal (n \<le> digits_value str)"
    using integer_key_ge by blast
qed

theorem length_path_sets_witness:
  "isArray arr \<and> SET \<noteq> CLEAR
   \<and> targetMap (after_effect 8) arr
       = Some [(Str ''length'', 0), (Str ''1'', 1), (Str ''5'', 2), (Str ''foo'', 3)]
   \<and> string_keys [(Str ''length'', 0), (Str ''1'', 1), (Str ''5'', 2), (Str ''foo'', 3)]
   \<and> (\<forall>ge. length_sets_code (dev_env\<lparr>coerced_ge := ge\<rparr>) (Num 3)
              [(Str ''length'', 0), (Str ''1'', 1), (Str ''5'', 2), (Str ''foo'', 3)] = [0, 2])
   \<and> (\<forall>ge. trigger_effects (dev_env\<lparr>coerced_ge := ge\<rparr>) (after_effect 8) arr SET
              (Some (Str ''length'')) (Num 3)
              [(Str ''length'', 0), (Str ''1'', 1), (Str ''5'', 2), (Str ''foo'', 3)]
            = Normal (merged (after_effect 8) [0, 2]))
   \<and> merged (after_effect 8) [0, 2] = [0]"
proof -
  let ?m = "[(Str ''length'', 0 :: nat), (Str ''1'', 1), (Str ''5'', 2), (Str ''foo'', 3)]"
  have h1: "isArray arr" by (simp add: arr_def)
  have h2: "SET \<noteq> CLEAR" by simp
  have h3: "string_keys ?m" by (simp add: string_keys_def)
  have h4: "targetMap (after_effect 8) arr = Some ?m"
    by (simp add: run_defs)
  have h5: "length_sets_code (dev_env\<lparr>coerced_ge := ge\<rparr>) (Num 3) ?m = [0, 2]" for ge
    by (simp add: length_sets_code_def run_defs)
  have h6: "trigger_effects (dev_env\<lparr>coerced_ge := ge\<rparr>) (after_effect 8) arr SET
              (Some (Str ''length'')) (Num 3) ?m
            = Normal (merged (after_effect 8) [0, 2])" for ge
    using length_path_sets [OF h1 h2 h3, of "dev_env\<lparr>coerced_ge := ge\<rparr>" "after_effect 8" "Num 3"]
    unfolding h5 by blast
  have h7: "merged (after_effect 8) [0, 2] = [0]"
    by (simp add: merged_def keep_def run_defs)
  show ?thesis
    using h1 h2 h3 h4 h5 h6 h7 by blast
qed

text \<open>
  The claim C6 as it is stated fails: an effect has read \<^verbatim>\<open>arr['007']\<close>, a key that is no
  integer index; setting the length to 3 collects that effect, while the merge of the sets
  that the claim names is empty.
\<close>

theorem length_path_counterexample:
  "targetMap (after_effect 4) arr = Some [(Str ''007'', 0)]
   \<and> \<not> isIntegerKey (Some (Str ''007''))
   \<and> (\<forall>ge. trigger_effects (dev_env\<lparr>coerced_ge := ge\<rparr>) (after_effect 4) arr SET
              (Some (Str ''length'')) (Num 3) [(Str ''007'', 0)]
            = Normal [0])
   \<and> merged (after_effect 4) (length_sets_spec (Num 3) [(Str ''007'', 0)]) = []"
  by (simp add: run_defs merged_def length_sets_spec_def)

text \<open>
  Claim C9 fails on the code. An effect has read a symbol-keyed property of an array, so the
  array's dependency map has a symbol key; setting the array's length makes \<^verbatim>\<open>trigger\<close>
  compare that key with the new length, which throws a \<^verbatim>\<open>TypeError\<close> out of \<^verbatim>\<open>trigger\<close>
  although no wrapped computation has run.
\<close>

theorem trigger_symbol_key_throws:
  "targetMap (after_effect 3) arr = Some [(Sym (UserSymbol 0), 0)]
   \<and> trigger (call_fn dev_env n) dev_env arr SET (Some (Str ''length'')) (Num 0) (after_effect 3)
       = (Throw TypeError, after_effect 3)"
  by (simp add: run_defs)

section \<open>\<^verbatim>\<open>track\<close>\<close>

lemma map_of_snoc:
  "map_of (m @ [(k, d)]) k' =
     (case map_of m k' of Some x \<Rightarrow> Some x | None \<Rightarrow> if k' = k then Some d else None)"
  by (induction m) auto

lemma track_noop: "activeEffect s = None \<or> \<not> shouldTrack s \<Longrightarrow> track E t ty k s = s"
  by (auto simp: track_def split: option.splits)

lemma track_member:
  "activeEffect s = Some e \<Longrightarrow> shouldTrack s \<Longrightarrow> dep_at s t k = Some d \<Longrightarrow>
   e \<in> set (depsets s d) \<Longrightarrow> track E t ty k s = s"
  by (auto simp: track_def dep_at_def split: option.splits)

lemma track_existing:
  "activeEffect s = Some e \<Longrightarrow> shouldTrack s \<Longrightarrow> dep_at s t k = Some d \<Longrightarrow>
   e \<notin> set (depsets s d) \<Longrightarrow>
   track E t ty k s =
     s\<lparr>depsets := (depsets s)(d := depsets s d @ [e]),
       effects := (effects s)(e := (effects s e)\<lparr>deps := deps (effects s e) @ [d]\<rparr>),
       log := log s @ onTrack_events E s e t ty k\<rparr>"
  by (auto simp: track_def dep_at_def onTrack_events_def split: option.splits)

lemma track_fresh:
  "activeEffect s = Some e \<Longrightarrow> shouldTrack s \<Longrightarrow> dep_at s t k = None \<Longrightarrow>
   track E t ty k s =
     s\<lparr>targetMap := (targetMap s)
          (t := Some ((case targetMap s t of None \<Rightarrow> [] | Some m \<Rightarrow> m) @ [(k, next_dep s)])),
       depsets := (depsets s)(next_dep s := [e]),
       next_dep := Suc (next_dep s),
       effects := (effects s)(e := (effects s e)\<lparr>deps := deps (effects s e) @ [next_dep s]\<rparr>),
       log := log s @ onTrack_events E s e t ty k\<rparr>"
  by (auto simp: track_def dep_at_def onTrack_events_def split: option.splits)

lemma track_cases:
  obtains (noop) "activeEffect s = None \<or> \<not> shouldTrack s"
  | (member) e d where "activeEffect s = Some e" "shouldTrack s" "dep_at s t k = Some d" "e \<in> set (depsets s d)"
  | (existing) e d where "activeEffect s = Some e" "shouldTrack s" "dep_at s t k = Some d" "e \<notin> set (depsets s d)"
  | (fresh) e where "activeEffect s = Some e" "shouldTrack s" "dep_at s t k = None"
  by (cases "activeEffect s"; cases "shouldTrack s"; cases "dep_at s t k") auto

section \<open>The invariants of the state\<close>

lemma delete_from_apply:
  "delete_from e ds h d = (if d \<in> set ds then removeAll e (h d) else h d)"
  by (induction ds arbitrary: h) auto

lemma cleanup_depsets:
  "depsets (cleanup e s) d
   = (if d \<in> set (deps (effects s e)) then removeAll e (depsets s d) else depsets s d)"
  by (auto simp: cleanup_def Let_def delete_from_apply)

lemma cleanup_effects:
  "effects (cleanup e s) = (effects s)(e := (effects s e)\<lparr>deps := []\<rparr>)"
  by (auto simp: cleanup_def Let_def)

lemma cleanup_other [simp]:
  "targetMap (cleanup e s) = targetMap s" "next_dep (cleanup e s) = next_dep s"
  "uid (cleanup e s) = uid s" "effectStack (cleanup e s) = effectStack s"
  "activeEffect (cleanup e s) = activeEffect s" "shouldTrack (cleanup e s) = shouldTrack s"
  "trackStack (cleanup e s) = trackStack s" "log (cleanup e s) = log s"
  by (auto simp: cleanup_def Let_def)

lemma dep_at_cleanup [simp]: "dep_at (cleanup e s) = dep_at s"
  by (auto simp: dep_at_def fun_eq_iff)

lemma membership_inv_cleanup: "membership_inv s \<Longrightarrow> membership_inv (cleanup e s)"
  unfolding membership_inv_def by (auto simp: cleanup_depsets cleanup_effects)

lemma alloc_inv_cleanup: "alloc_inv s \<Longrightarrow> alloc_inv (cleanup e s)"
  unfolding alloc_inv_def by (auto simp: cleanup_depsets cleanup_effects)

lemma registry_inv_cleanup: "registry_inv s \<Longrightarrow> registry_inv (cleanup e s)"
  unfolding registry_inv_def by simp

lemma state_inv_cleanup: "state_inv s \<Longrightarrow> state_inv (cleanup e s)"
  by (simp add: state_inv_def membership_inv_cleanup alloc_inv_cleanup registry_inv_cleanup)

lemma cleanup_removes:
  "membership_inv s \<Longrightarrow> e \<notin> set (depsets (cleanup e s) d)"
  unfolding membership_inv_def by (auto simp: cleanup_depsets)

lemma state_inv_log [simp]: "state_inv (s\<lparr>log := l\<rparr>) = state_inv s"
  by (simp add: state_inv_def membership_inv_def alloc_inv_def registry_inv_def dep_at_def)

lemma state_inv_stop: "state_inv s \<Longrightarrow> state_inv (stop e s)"
proof -
  assume a: "state_inv s"
  have c: "state_inv (cleanup e s)" using a by (rule state_inv_cleanup)
  have "\<And>s1. state_inv s1 \<Longrightarrow>
          state_inv (s1\<lparr>effects := (effects s1)(e := (effects s1 e)\<lparr>active := False\<rparr>)\<rparr>)"
    by (auto simp: state_inv_def membership_inv_def alloc_inv_def registry_inv_def dep_at_def)
  then show ?thesis using c a
    by (auto simp: stop_def Let_def split: option.splits)
qed

lemma state_inv_tracking:
  "state_inv (pauseTracking s) = state_inv s"
  "state_inv (enableTracking s) = state_inv s"
  "state_inv (resetTracking s) = state_inv s"
  by (auto simp: state_inv_def membership_inv_def alloc_inv_def registry_inv_def dep_at_def
        pauseTracking_def enableTracking_def resetTracking_def)

lemma state_inv_create: "state_inv s \<Longrightarrow> state_inv (snd (createReactiveEffect f opts s))"
  unfolding state_inv_def
proof (intro conjI)
  assume a: "membership_inv s \<and> alloc_inv s \<and> registry_inv s"
  show "membership_inv (snd (createReactiveEffect f opts s))"
    using a unfolding membership_inv_def alloc_inv_def createReactiveEffect_def
    by auto
  show "alloc_inv (snd (createReactiveEffect f opts s))"
    using a unfolding alloc_inv_def createReactiveEffect_def by (auto simp: less_Suc_eq)
  show "registry_inv (snd (createReactiveEffect f opts s))"
    using a unfolding registry_inv_def createReactiveEffect_def dep_at_def by auto
qed

lemma state_inv_begin_run:
  "state_inv s \<Longrightarrow> active (effects s e) \<Longrightarrow> state_inv (begin_run e s)"
  unfolding state_inv_def membership_inv_def alloc_inv_def registry_inv_def dep_at_def
    begin_run_def enableTracking_def Let_def
  by (auto simp: not_le[symmetric])

lemma state_inv_end_run: "state_inv s \<Longrightarrow> state_inv (end_run s)"
  unfolding state_inv_def membership_inv_def alloc_inv_def registry_inv_def dep_at_def
    end_run_def resetTracking_def Let_def
  by (auto dest: in_set_butlastD simp: last_in_set in_set_butlastD)

lemma dep_at_fresh:
  "dep_at (s\<lparr>targetMap := (targetMap s)
          (t := Some ((case targetMap s t of None \<Rightarrow> [] | Some m \<Rightarrow> m) @ [(k, d)])),
       depsets := ds, next_dep := n, effects := ef, log := l\<rparr>) t' k'
   = (case dep_at s t' k' of Some x \<Rightarrow> Some x
      | None \<Rightarrow> if t' = t \<and> k' = k then Some d else None)"
  by (auto simp: dep_at_def map_of_snoc simp del: map_of_append split: option.splits)

lemma state_inv_track: "state_inv s \<Longrightarrow> state_inv (track E t ty k s)"
proof (cases rule: track_cases [where s=s and t=t and k=k])
  case noop
  assume "state_inv s"
  then show ?thesis using noop by (simp add: track_noop)
next
  case (member e d)
  assume "state_inv s"
  then show ?thesis using member by (simp add: track_member)
next
  case (existing e d)
  assume a: "state_inv s"
  have d: "d < next_dep s" using a existing by (auto simp: state_inv_def registry_inv_def)
  have e: "e < uid s" using a existing by (auto simp: state_inv_def alloc_inv_def)
  show ?thesis
    unfolding track_existing[OF existing] state_inv_log state_inv_def
  proof (intro conjI)
    show "membership_inv (s\<lparr>depsets := (depsets s)(d := depsets s d @ [e]),
       effects := (effects s)(e := (effects s e)\<lparr>deps := deps (effects s e) @ [d]\<rparr>),
       log := log s @ onTrack_events E s e t ty k\<rparr>)"
      using a unfolding state_inv_def membership_inv_def by auto
    show "alloc_inv (s\<lparr>depsets := (depsets s)(d := depsets s d @ [e]),
       effects := (effects s)(e := (effects s e)\<lparr>deps := deps (effects s e) @ [d]\<rparr>),
       log := log s @ onTrack_events E s e t ty k\<rparr>)"
      using a d e unfolding state_inv_def alloc_inv_def by auto
    show "registry_inv (s\<lparr>depsets := (depsets s)(d := depsets s d @ [e]),
       effects := (effects s)(e := (effects s e)\<lparr>deps := deps (effects s e) @ [d]\<rparr>),
       log := log s @ onTrack_events E s e t ty k\<rparr>)"
      using a unfolding state_inv_def registry_inv_def dep_at_def by auto
  qed
next
  case (fresh e)
  assume a: "state_inv s"
  have e: "e < uid s" using a fresh by (auto simp: state_inv_def alloc_inv_def)
  have nd: "depsets s (next_dep s) = []" using a by (auto simp: state_inv_def alloc_inv_def)
  have nd2: "next_dep s \<notin> set (deps (effects s e'))" for e'
  proof -
    have "(e' \<in> set (depsets s (next_dep s))) = (next_dep s \<in> set (deps (effects s e')))"
      using a by (simp add: state_inv_def membership_inv_def)
    then show ?thesis using nd by simp
  qed
  let ?s' = "s\<lparr>targetMap := (targetMap s)
          (t := Some ((case targetMap s t of None \<Rightarrow> [] | Some m \<Rightarrow> m) @ [(k, next_dep s)])),
       depsets := (depsets s)(next_dep s := [e]),
       next_dep := Suc (next_dep s),
       effects := (effects s)(e := (effects s e)\<lparr>deps := deps (effects s e) @ [next_dep s]\<rparr>),
       log := log s @ onTrack_events E s e t ty k\<rparr>"
  have "membership_inv ?s'"
    using a nd2 unfolding state_inv_def membership_inv_def by auto
  moreover have "alloc_inv ?s'"
    using a e unfolding state_inv_def alloc_inv_def by auto
  moreover have "registry_inv ?s'"
    using a fresh(3) unfolding state_inv_def registry_inv_def
    by (auto simp: dep_at_fresh less_Suc_eq split: option.splits if_splits)
  ultimately show ?thesis
    unfolding track_fresh[OF fresh] state_inv_def by simp
qed

section \<open>Relations that every step keeps\<close>

lemma sc_refl: "step_closed R \<Longrightarrow> R s s"
  by (simp add: step_closed_def)

lemma sc_trans:
  assumes "step_closed R" and "R s s'" and "R s' s''"
  shows "R s s''"
proof -
  have "\<forall>s s' s''. R s s' \<longrightarrow> R s' s'' \<longrightarrow> R s s''"
    using assms(1) by (simp add: step_closed_def)
  then show ?thesis using assms(2,3) by blast
qed

lemma sc_track: "step_closed R \<Longrightarrow> R s (track E t ty k s)"
  by (simp add: step_closed_def)

lemma sc_pause: "step_closed R \<Longrightarrow> R s (pauseTracking s)"
  by (simp add: step_closed_def)

lemma sc_enable: "step_closed R \<Longrightarrow> R s (enableTracking s)"
  by (simp add: step_closed_def)

lemma sc_reset: "step_closed R \<Longrightarrow> R s (resetTracking s)"
  by (simp add: step_closed_def)

lemma sc_stop: "step_closed R \<Longrightarrow> R s (stop e s)"
  by (simp add: step_closed_def)

lemma sc_log: "step_closed R \<Longrightarrow> R s (s\<lparr>log := l\<rparr>)"
  by (simp add: step_closed_def)

lemma sc_create: "step_closed R \<Longrightarrow> R s (snd (createReactiveEffect f opts s))"
  by (simp add: step_closed_def)

lemma sc_bracket:
  assumes "step_closed R" and "active (effects s e)" and "e \<notin> set (effectStack s)"
    and "R (begin_run e (cleanup e s)) s'"
  shows "R s (end_run s')"
proof -
  have "\<forall>e s s'. active (effects s e) \<longrightarrow> e \<notin> set (effectStack s) \<longrightarrow>
          R (begin_run e (cleanup e s)) s' \<longrightarrow> R s (end_run s')"
    using assms(1) by (simp add: step_closed_def)
  then show ?thesis using assms(2,3,4) by blast
qed

lemma reactiveEffect_respects:
  assumes R: "step_closed R" and c: "call_ok R call"
  shows "R s (snd (reactiveEffect call e s))"
proof -
  have call: "\<And>f s. R s (snd (call f s))" using c by (simp add: call_ok_def)
  show ?thesis
    unfolding reactiveEffect_def
    using sc_refl[OF R] call
          sc_bracket[OF R, of s e "snd (call (raw (effects s e)) (begin_run e (cleanup e s)))"]
    by (auto split: option.splits prod.splits)
qed

lemma run_respects:
  assumes R: "step_closed R" and c: "call_ok R call"
  shows "R s (snd (run call E args e s))"
proof -
  note tr = sc_trans[OF R] and lg = sc_log[OF R] and rf = sc_refl[OF R]
  note re = reactiveEffect_respects[OF R c]
  define s1 where "s1 = (case onTrigger (options (effects s e)) of
                  Some h \<Rightarrow>
                    if DEV E
                    then s\<lparr>log := log s @ [OnTrigger h e (fst args) (fst (snd (snd args)))
                                              (fst (snd args)) (snd (snd (snd args)))]\<rparr>
                    else s
                | None \<Rightarrow> s)"
  have a: "R s s1" unfolding s1_def using lg rf by (auto split: option.splits)
  have b: "R s1 (snd (run call E args e s))"
    unfolding run_def s1_def[symmetric] Let_def using lg re by (auto split: option.splits)
  show ?thesis using tr[OF a b] .
qed

lemma run_effects_respects:
  assumes R: "step_closed R" and c: "call_ok R call"
  shows "R s (snd (run_effects call E args es s))"
proof (induction es arbitrary: s)
  case Nil
  then show ?case using sc_refl[OF R] by simp
next
  case (Cons e es)
  obtain r s' where rs: "run call E args e s = (r, s')" by (cases "run call E args e s")
  have a: "R s s'" using run_respects[OF R c, of s E args e] rs by simp
  show ?case
  proof (cases r)
    case (Normal u)
    then show ?thesis using rs sc_trans[OF R a Cons[of s']] by simp
  qed (use rs a in auto)
qed

lemma trigger_respects:
  assumes R: "step_closed R" and c: "call_ok R call"
  shows "R s (snd (trigger call E t ty k v s))"
  unfolding trigger_def
  using sc_refl[OF R] run_effects_respects[OF R c]
  by (auto split: option.splits outcome.splits)

lemma effect_respects:
  assumes R: "step_closed R" and c: "call_ok R call"
  shows "R s (snd (effect call fn opts s))"
proof -
  define f where "f = (case fn of Fn g \<Rightarrow> g | EffectFn e0 \<Rightarrow> raw (effects s e0))"
  obtain e s1 where cr: "createReactiveEffect f opts s = (e, s1)"
    by (cases "createReactiveEffect f opts s")
  have a: "R s s1" using sc_create[OF R, of s f opts] cr by simp
  have b: "R s1 (snd (reactiveEffect call e s1))" by (rule reactiveEffect_respects[OF R c])
  have "R s1 (snd (effect call fn opts s))"
    unfolding effect_def f_def[symmetric] Let_def cr
    using b sc_refl[OF R]
    by (auto split: prod.splits outcome.splits)
  then show ?thesis using a sc_trans[OF R] by blast
qed

lemma exec_respects:
  assumes R: "step_closed R"
  shows "call_ok R call \<Longrightarrow> R s (snd (exec call E as s))"
proof (induction call E as s rule: exec.induct)
  case (1 call E s)
  then show ?case using sc_refl[OF R] by simp
next
  case (2 call E t ty k as s)
  then have ih: "R (track E t ty k s) (snd (exec call E as (track E t ty k s)))" by simp
  show ?case using sc_trans[OF R sc_track[OF R] ih] by simp
next
  case (3 call E as s)
  then have ih: "R (pauseTracking s) (snd (exec call E as (pauseTracking s)))" by simp
  show ?case using sc_trans[OF R sc_pause[OF R] ih] by simp
next
  case (4 call E as s)
  then have ih: "R (enableTracking s) (snd (exec call E as (enableTracking s)))" by simp
  show ?case using sc_trans[OF R sc_enable[OF R] ih] by simp
next
  case (5 call E as s)
  then have ih: "R (resetTracking s) (snd (exec call E as (resetTracking s)))" by simp
  show ?case using sc_trans[OF R sc_reset[OF R] ih] by simp
next
  case (6 call E e as s)
  then have ih: "R (stop e s) (snd (exec call E as (stop e s)))" by simp
  show ?case using sc_trans[OF R sc_stop[OF R] ih] by simp
next
  case (7 call E v as s)
  then show ?case using sc_refl[OF R] by simp
next
  case (8 call E t ty k v as s)
  obtain r s' where rs: "trigger call E t ty k v s = (r, s')" by (cases "trigger call E t ty k v s")
  have a: "R s s'" using trigger_respects[OF R 8(2), of s E t ty k v] rs by simp
  show ?case
  proof (cases r)
    case (Normal u)
    then have ih: "R s' (snd (exec call E as s'))" using rs 8(1) 8(2) by simp
    show ?thesis using rs Normal sc_trans[OF R a ih] by simp
  qed (use rs a in auto)
next
  case (9 call E e as s)
  obtain r s' where rs: "reactiveEffect call e s = (r, s')" by (cases "reactiveEffect call e s")
  have a: "R s s'" using reactiveEffect_respects[OF R 9(2), of s e] rs by simp
  show ?case
  proof (cases r)
    case (Normal u)
    then have ih: "R s' (snd (exec call E as s'))" using rs 9(1) 9(2) by simp
    show ?thesis using rs Normal sc_trans[OF R a ih] by simp
  qed (use rs a in auto)
next
  case (10 call E fn opts as s)
  obtain r s' where rs: "effect call fn opts s = (r, s')" by (cases "effect call fn opts s")
  have a: "R s s'" using effect_respects[OF R 10(2), of s fn opts] rs by simp
  show ?case
  proof (cases r)
    case (Normal u)
    then have ih: "R s' (snd (exec call E as s'))" using rs 10(1) 10(2) by simp
    show ?thesis using rs Normal sc_trans[OF R a ih] by simp
  qed (use rs a in auto)
qed

lemma call_fn_respects:
  assumes R: "step_closed R"
  shows "call_ok R (call_fn E n)"
proof (induction n)
  case 0
  then show ?case using sc_refl[OF R] by (simp add: call_ok_def)
next
  case (Suc n)
  show ?case
    unfolding call_ok_def
  proof (intro allI)
    fix f and s :: state
    let ?s0 = "s\<lparr>log := log s @ [Called f]\<rparr>"
    have a: "R s ?s0" by (rule sc_log[OF R])
    have b: "R ?s0 (snd (exec (call_fn E n) E (fst (prog E f)) ?s0))"
      by (rule exec_respects[OF R Suc])
    have "snd (call_fn E (Suc n) f s) = snd (exec (call_fn E n) E (fst (prog E f)) ?s0)"
      by (auto split: prod.splits outcome.splits)
    then show "R s (snd (call_fn E (Suc n) f s))"
      using sc_trans[OF R a b] by simp
  qed
qed

section \<open>The invariants hold between operations\<close>

lemma cleanup_active [simp]: "active (effects (cleanup e s) e') = active (effects s e')"
  by (simp add: cleanup_effects)

lemma step_closed_inv_rel: "step_closed inv_rel"
  unfolding step_closed_def inv_rel_def
  using state_inv_track state_inv_stop state_inv_create state_inv_cleanup
        state_inv_begin_run state_inv_end_run
  by (simp add: state_inv_tracking)

lemma effectStack_track [simp]: "effectStack (track E t ty k s) = effectStack s"
  by (cases rule: track_cases [where s=s and t=t and k=k])
     (simp_all add: track_noop track_member track_existing track_fresh)

lemma effectStack_stop [simp]: "effectStack (stop e s) = effectStack s"
  by (simp add: stop_def Let_def split: option.splits)


lemma state_inv_call_fn: "state_inv s \<Longrightarrow> state_inv (snd (call_fn E n f s))"
  using call_fn_respects[OF step_closed_inv_rel, of E n]
  by (simp add: call_ok_def inv_rel_def)


lemma state_inv_init: "state_inv init"
  by (simp add: state_inv_def membership_inv_def alloc_inv_def registry_inv_def dep_at_def
        init_def no_effect_def)






section \<open>Running an effect\<close>

lemma exec_reads:
  "exec call E (read_actions reads) s
   = (Normal Undefined, foldl (\<lambda>s (t, ty, k). track E t ty k s) s reads)"
  by (induction reads arbitrary: s) (auto simp: read_actions_def)

lemma activeEffect_track [simp]: "activeEffect (track E t ty k s) = activeEffect s"
  by (cases rule: track_cases [where s=s and t=t and k=k])
     (simp_all add: track_noop track_member track_existing track_fresh)

lemma shouldTrack_track [simp]: "shouldTrack (track E t ty k s) = shouldTrack s"
  by (cases rule: track_cases [where s=s and t=t and k=k])
     (simp_all add: track_noop track_member track_existing track_fresh)

lemma track_members:
  assumes inv: "state_inv s" and ae: "activeEffect s = Some e" and st: "shouldTrack s"
  shows "(e \<in> set (members (track E t ty k s) t' k'))
         = (e \<in> set (members s t' k') \<or> (t' = t \<and> k' = k))"
proof (cases rule: track_cases [where s=s and t=t and k=k])
  case noop
  then show ?thesis using ae st by simp
next
  case (member e0 d)
  then show ?thesis using ae by (auto simp: track_member members_def)
next
  case (existing e0 d)
  have e0: "e0 = e" using existing ae by simp
  have inj: "\<And>d'. dep_at s t' k' = Some d' \<Longrightarrow> (d' = d) = (t' = t \<and> k' = k)"
    using inv existing(3) unfolding state_inv_def registry_inv_def by (metis option.inject)
  have da: "dep_at (track E t ty k s) t' k' = dep_at s t' k'"
    unfolding track_existing[OF existing] by (simp add: dep_at_def)
  show ?thesis
  proof (cases "dep_at s t' k'")
    case None
    then show ?thesis using da existing(3) by (auto simp: members_def)
  next
    case (Some d')
    then show ?thesis using da inj[OF Some] e0
      unfolding members_def track_existing[OF existing] by auto
  qed
next
  case (fresh e0)
  have e0: "e0 = e" using fresh ae by simp
  have lt: "\<And>d'. dep_at s t' k' = Some d' \<Longrightarrow> d' \<noteq> next_dep s"
    using inv unfolding state_inv_def registry_inv_def by fastforce
  show ?thesis
  proof (cases "dep_at s t' k'")
    case None
    then show ?thesis using e0 fresh(3)
      unfolding members_def track_fresh[OF fresh] by (auto simp: dep_at_fresh)
  next
    case (Some d')
    then show ?thesis using e0 fresh(3) lt[OF Some]
      unfolding members_def track_fresh[OF fresh] by (auto simp: dep_at_fresh)
  qed
qed

lemma foldl_track_members:
  assumes "state_inv s" and "activeEffect s = Some e" and "shouldTrack s"
  shows "(e \<in> set (members (foldl (\<lambda>s (t, ty, k). track E t ty k s) s reads) t' k'))
         = (e \<in> set (members s t' k') \<or> (t', k') \<in> read_keys reads)"
  using assms
proof (induction reads arbitrary: s)
  case Nil
  then show ?case by (simp add: read_keys_def)
next
  case (Cons r reads)
  obtain t ty k where r: "r = (t, ty, k)" by (cases r)
  have "(e \<in> set (members (foldl (\<lambda>s (t, ty, k). track E t ty k s) (track E t ty k s) reads) t' k'))
        = (e \<in> set (members (track E t ty k s) t' k') \<or> (t', k') \<in> read_keys reads)"
    using Cons.prems by (intro Cons.IH) (simp_all add: state_inv_track)
  then show ?case
    using r track_members[OF Cons.prems, of E t ty k t' k'] by (auto simp: read_keys_def)
qed

lemma members_end_run [simp]: "members (end_run s) = members s"
  by (auto simp add: members_def dep_at_def fun_eq_iff end_run_def resetTracking_def Let_def
        split: option.splits)

lemma members_log [simp]: "members (s\<lparr>log := l\<rparr>) = members s"
  by (auto simp add: members_def dep_at_def fun_eq_iff split: option.splits)

lemma cleanup_members:
  "state_inv s \<Longrightarrow> e \<notin> set (members (cleanup e s) t k)"
  using cleanup_removes by (auto simp: members_def state_inv_def split: option.splits)

lemma run_reads:
  assumes inv: "state_inv s" and act: "active (effects s e)" and ns: "e \<notin> set (effectStack s)"
    and body: "fst (prog E (raw (effects s e))) = read_actions reads"
  shows "fst (reactiveEffect (call_fn E (Suc n)) e s) = Normal (snd (prog E (raw (effects s e))))"
    and "(e \<in> set (members (snd (reactiveEffect (call_fn E (Suc n)) e s)) t k))
         = ((t, k) \<in> read_keys reads)"
proof -
  let ?s0 = "begin_run e (cleanup e s)"
  let ?s1 = "?s0\<lparr>log := log ?s0 @ [Called (raw (effects s e))]\<rparr>"
  have i0: "state_inv ?s0" using inv act by (simp add: state_inv_cleanup state_inv_begin_run)
  have i1: "state_inv ?s1" using i0 by simp
  have a1: "activeEffect ?s1 = Some e" "shouldTrack ?s1"
    by (simp_all add: begin_run_def enableTracking_def Let_def)
  have m1: "e \<notin> set (members ?s1 t k)"
    using cleanup_members[OF inv, of e t k]
    by (simp add: members_def dep_at_def begin_run_def enableTracking_def Let_def)
  have r: "reactiveEffect (call_fn E (Suc n)) e s
           = (Normal (snd (prog E (raw (effects s e)))),
              end_run (foldl (\<lambda>s (t, ty, k). track E t ty k s) ?s1 reads))"
    using act ns by (simp add: reactiveEffect_def body exec_reads)
  show "fst (reactiveEffect (call_fn E (Suc n)) e s) = Normal (snd (prog E (raw (effects s e))))"
    by (simp add: r)
  show "(e \<in> set (members (snd (reactiveEffect (call_fn E (Suc n)) e s)) t k))
         = ((t, k) \<in> read_keys reads)"
    using foldl_track_members[OF i1 a1, of E reads t k] m1 by (simp add: r)
qed

text \<open>
  Claim C3. Running an active effect that is on the effect stack does nothing and returns
  \<^verbatim>\<open>undefined\<close>. Any other run of an active effect first cleans up, and only then calls
  the computation: the effect is removed from every set of its \<^verbatim>\<open>deps\<close> and the list is
  emptied, so that (the invariants holding) it is a member of no registered set when the
  computation starts. After the run of a computation that only reads, the effect is
  subscribed to exactly the keys read in this run, whatever it was subscribed to before.
\<close>

theorem run_resubscribes:
  "(active (effects s e) \<and> e \<in> set (effectStack s)
      \<longrightarrow> reactiveEffect call e s = (Normal Undefined, s))
   \<and> (active (effects s e) \<and> e \<notin> set (effectStack s)
      \<longrightarrow> reactiveEffect call e s
          = (case call (raw (effects s e)) (begin_run e (cleanup e s)) of
               (r, s') \<Rightarrow> (r, end_run s')))
   \<and> (\<forall>d \<in> set (deps (effects s e)). e \<notin> set (depsets (cleanup e s) d))
   \<and> deps (effects (cleanup e s) e) = []
   \<and> (state_inv s \<longrightarrow> (\<forall>t k. e \<notin> set (members (cleanup e s) t k)))
   \<and> (state_inv s \<and> active (effects s e) \<and> e \<notin> set (effectStack s)
        \<and> fst (prog E (raw (effects s e))) = read_actions reads
      \<longrightarrow> fst (reactiveEffect (call_fn E (Suc n)) e s) = Normal (snd (prog E (raw (effects s e))))
          \<and> (\<forall>t k. (e \<in> set (members (snd (reactiveEffect (call_fn E (Suc n)) e s)) t k))
                    = ((t, k) \<in> read_keys reads)))"
proof (intro conjI impI allI ballI)
  show "reactiveEffect call e s = (Normal Undefined, s)"
    if "active (effects s e) \<and> e \<in> set (effectStack s)"
    using that by (simp add: reactiveEffect_def)
  show "reactiveEffect call e s
          = (case call (raw (effects s e)) (begin_run e (cleanup e s)) of
               (r, s') \<Rightarrow> (r, end_run s'))"
    if "active (effects s e) \<and> e \<notin> set (effectStack s)"
    using that by (simp add: reactiveEffect_def)
  show "e \<notin> set (depsets (cleanup e s) d)" if "d \<in> set (deps (effects s e))" for d
    using that by (simp add: cleanup_depsets)
  show "deps (effects (cleanup e s) e) = []" by (simp add: cleanup_effects)
  show "e \<notin> set (members (cleanup e s) t k)" if "state_inv s" for t k
    using that by (rule cleanup_members)
next
  assume a: "state_inv s \<and> active (effects s e) \<and> e \<notin> set (effectStack s)
        \<and> fst (prog E (raw (effects s e))) = read_actions reads"
  then show "fst (reactiveEffect (call_fn E (Suc n)) e s) = Normal (snd (prog E (raw (effects s e))))"
    using run_reads(1) by blast
  fix t k
  show "(e \<in> set (members (snd (reactiveEffect (call_fn E (Suc n)) e s)) t k))
                    = ((t, k) \<in> read_keys reads)"
    using a run_reads(2) by blast
qed

theorem run_resubscribes_witness:
  "state_inv (after_effect 2) \<and> active (effects (after_effect 2) 0)
   \<and> 0 \<notin> set (effectStack (after_effect 2))
   \<and> fst (prog dev_env (raw (effects (after_effect 2) 0))) = read_actions [(obj, GET, Str ''a'')]
   \<and> fst (reactiveEffect (call_fn dev_env (Suc 0)) 0 (after_effect 2)) = Normal (Num 2)
   \<and> 0 \<in> set (members (snd (reactiveEffect (call_fn dev_env (Suc 0)) 0 (after_effect 2)))
                obj (Str ''a''))"
proof -
  have i: "state_inv (after_effect 2)"
    unfolding after_effect_def
    using effect_respects[OF step_closed_inv_rel call_fn_respects[OF step_closed_inv_rel], of init]
          state_inv_init
    by (simp add: inv_rel_def)
  have h: "active (effects (after_effect 2) 0)" "0 \<notin> set (effectStack (after_effect 2))"
    "fst (prog dev_env (raw (effects (after_effect 2) 0))) = read_actions [(obj, GET, Str ''a'')]"
    "snd (prog dev_env (raw (effects (after_effect 2) 0))) = Num 2"
    by (simp_all add: run_defs read_actions_def)
  have "fst (reactiveEffect (call_fn dev_env (Suc 0)) 0 (after_effect 2))
          = Normal (snd (prog dev_env (raw (effects (after_effect 2) 0))))
        \<and> (\<forall>t k. (0 \<in> set (members (snd (reactiveEffect (call_fn dev_env (Suc 0)) 0
                                             (after_effect 2))) t k))
                  = ((t, k) \<in> read_keys [(obj, GET, Str ''a'')]))"
    using run_resubscribes [of "after_effect 2" 0 "call_fn dev_env (Suc 0)" dev_env
            "[(obj, GET, Str ''a'')]" 0] i h(1,2,3)
    by blast
  then show ?thesis
    using i h by (simp add: read_keys_def)
qed








section \<open>What \<^verbatim>\<open>track\<close> does, and how often in a run\<close>

lemma onTrack_calls_append:
  "onTrack_calls e t k (xs @ ys) = onTrack_calls e t k xs + onTrack_calls e t k ys"
  by (induction e t k xs rule: onTrack_calls.induct) auto

lemma track_log:
  assumes "activeEffect s = Some e" and "shouldTrack s"
  shows "log (track E t ty k s)
         = log s @ (if e \<in> set (members s t k) then [] else onTrack_events E s e t ty k)"
proof (cases rule: track_cases [where s=s and t=t and k=k])
  case noop
  then show ?thesis using assms by simp
next
  case (member e0 d)
  then show ?thesis using assms by (simp add: track_member members_def)
next
  case (existing e0 d)
  then show ?thesis using assms by (simp add: track_existing members_def)
next
  case (fresh e0)
  then show ?thesis using assms by (simp add: track_fresh members_def)
qed

lemma options_track [simp]: "options (effects (track E t ty k s) e) = options (effects s e)"
  by (cases rule: track_cases [where s=s and t=t and k=k])
     (simp_all add: track_noop track_member track_existing track_fresh)

lemma foldl_track_calls:
  assumes "state_inv s" and "activeEffect s = Some e" and "shouldTrack s"
    and "DEV E" and "onTrack (options (effects s e)) = Some h"
  shows "onTrack_calls e t' k' (log (foldl (\<lambda>s (t, ty, k). track E t ty k s) s reads))
         = onTrack_calls e t' k' (log s)
           + (if (t', k') \<in> read_keys reads \<and> e \<notin> set (members s t' k') then 1 else 0)"
  using assms
proof (induction reads arbitrary: s)
  case Nil
  then show ?case by (simp add: read_keys_def)
next
  case (Cons r reads)
  obtain t ty k where r: "r = (t, ty, k)" by (cases r)
  let ?s1 = "track E t ty k s"
  have ih: "onTrack_calls e t' k' (log (foldl (\<lambda>s (t, ty, k). track E t ty k s) ?s1 reads))
         = onTrack_calls e t' k' (log ?s1)
           + (if (t', k') \<in> read_keys reads \<and> e \<notin> set (members ?s1 t' k') then 1 else 0)"
    using Cons.prems by (intro Cons.IH) (simp_all add: state_inv_track)
  have l1: "onTrack_calls e t' k' (log ?s1)
            = onTrack_calls e t' k' (log s)
              + (if t' = t \<and> k' = k \<and> e \<notin> set (members s t k) then 1 else 0)"
    using Cons.prems
    by (simp add: track_log onTrack_calls_append onTrack_events_def)
  have m1: "(e \<in> set (members ?s1 t' k')) = (e \<in> set (members s t' k') \<or> (t' = t \<and> k' = k))"
    using Cons.prems by (intro track_members) simp_all
  have rk: "((t', k') \<in> read_keys (r # reads)) = ((t' = t \<and> k' = k) \<or> (t', k') \<in> read_keys reads)"
    using r by (auto simp: read_keys_def)
  have step: "foldl (\<lambda>s (t, ty, k). track E t ty k s) s (r # reads)
              = foldl (\<lambda>s (t, ty, k). track E t ty k s) ?s1 reads"
    by (simp add: r)
  show ?case
  proof (cases "t' = t \<and> k' = k")
    case True
    then show ?thesis
      unfolding step ih l1 m1 rk by (cases "e \<in> set (members s t k)") simp_all
  next
    case False
    then show ?thesis
      unfolding step ih l1 m1 rk by (cases "e \<in> set (members s t' k')") auto
  qed
qed

lemma log_end_run [simp]: "log (end_run s) = log s"
  by (simp add: end_run_def resetTracking_def Let_def)

lemma run_reads_calls:
  assumes inv: "state_inv s" and act: "active (effects s e)" and ns: "e \<notin> set (effectStack s)"
    and body: "fst (prog E (raw (effects s e))) = read_actions reads"
    and dev: "DEV E" and h: "onTrack (options (effects s e)) = Some h"
  shows "onTrack_calls e t k (log (snd (reactiveEffect (call_fn E (Suc n)) e s)))
         = onTrack_calls e t k (log s) + (if (t, k) \<in> read_keys reads then 1 else 0)"
proof -
  let ?s0 = "begin_run e (cleanup e s)"
  let ?s1 = "?s0\<lparr>log := log ?s0 @ [Called (raw (effects s e))]\<rparr>"
  have i1: "state_inv ?s1" using inv act by (simp add: state_inv_cleanup state_inv_begin_run)
  have a1: "activeEffect ?s1 = Some e" "shouldTrack ?s1"
    by (simp_all add: begin_run_def enableTracking_def Let_def)
  have o1: "onTrack (options (effects ?s1 e)) = Some h"
    using h by (simp add: begin_run_def enableTracking_def Let_def cleanup_effects)
  have m1: "e \<notin> set (members ?s1 t k)"
    using cleanup_members[OF inv, of e t k]
    by (simp add: members_def dep_at_def begin_run_def enableTracking_def Let_def)
  have l1: "log ?s1 = log s @ [Called (raw (effects s e))]"
    by (simp add: begin_run_def enableTracking_def Let_def)
  have r: "snd (reactiveEffect (call_fn E (Suc n)) e s)
           = end_run (foldl (\<lambda>s (t, ty, k). track E t ty k s) ?s1 reads)"
    using act ns by (simp add: reactiveEffect_def body exec_reads)
  show ?thesis
    unfolding r log_end_run foldl_track_calls[OF i1 a1 dev o1] l1 using m1
    by (simp add: onTrack_calls_append)
qed

text \<open>
  Claim C2, as the code has it. \<^verbatim>\<open>track\<close> does nothing when tracking is disabled or no
  effect is running. Otherwise the dependency set of the key is created on first use;
  when the running effect is already a member nothing changes; when it is not, the effect
  is appended to the set, the set is appended to the effect's \<^verbatim>\<open>deps\<close>, and the
  \<^verbatim>\<open>onTrack\<close> callback, when configured, is called in a development build only. A
  repeated read adds nothing and calls nothing, so in a run of a computation that only
  reads, in a development build, the callback is called exactly once for each key read.
\<close>

theorem track_contract:
  "(activeEffect s = None \<or> \<not> shouldTrack s \<longrightarrow> track E t ty k s = s)
   \<and> (activeEffect s = Some e \<and> shouldTrack s \<and> e \<in> set (members s t k)
        \<longrightarrow> track E t ty k s = s)
   \<and> (activeEffect s = Some e \<and> shouldTrack s \<and> e \<notin> set (members s t k) \<longrightarrow>
        (\<exists>d. dep_at (track E t ty k s) t k = Some d
           \<and> (dep_at s t k = None \<longrightarrow> d = next_dep s)
           \<and> (\<forall>d0. dep_at s t k = Some d0 \<longrightarrow> d = d0)
           \<and> depsets (track E t ty k s) d = members s t k @ [e]
           \<and> deps (effects (track E t ty k s) e) = deps (effects s e) @ [d]
           \<and> log (track E t ty k s) = log s @ onTrack_events E s e t ty k))
   \<and> track E t ty k (track E t ty k s) = track E t ty k s
   \<and> (state_inv s \<and> active (effects s e) \<and> e \<notin> set (effectStack s)
        \<and> fst (prog E (raw (effects s e))) = read_actions reads
        \<and> DEV E \<and> onTrack (options (effects s e)) = Some h \<longrightarrow>
        (\<forall>t' k'. onTrack_calls e t' k' (log (snd (reactiveEffect (call_fn E (Suc n)) e s)))
                 = onTrack_calls e t' k' (log s)
                   + (if (t', k') \<in> read_keys reads then 1 else 0)))"
proof (intro conjI impI allI)
  show "onTrack_calls e t' k' (log (snd (reactiveEffect (call_fn E (Suc n)) e s)))
          = onTrack_calls e t' k' (log s) + (if (t', k') \<in> read_keys reads then 1 else 0)"
    if "state_inv s \<and> active (effects s e) \<and> e \<notin> set (effectStack s)
        \<and> fst (prog E (raw (effects s e))) = read_actions reads
        \<and> DEV E \<and> onTrack (options (effects s e)) = Some h" for t' k'
    using that run_reads_calls by blast
next
  show "track E t ty k s = s" if "activeEffect s = None \<or> \<not> shouldTrack s"
    using that by (rule track_noop)
  show "track E t ty k s = s"
    if "activeEffect s = Some e \<and> shouldTrack s \<and> e \<in> set (members s t k)"
  proof (cases "dep_at s t k")
    case None
    then show ?thesis using that by (simp add: members_def)
  next
    case (Some d)
    then show ?thesis using that track_member [of s e t k d E] by (simp add: members_def)
  qed
  show "\<exists>d. dep_at (track E t ty k s) t k = Some d
           \<and> (dep_at s t k = None \<longrightarrow> d = next_dep s)
           \<and> (\<forall>d0. dep_at s t k = Some d0 \<longrightarrow> d = d0)
           \<and> depsets (track E t ty k s) d = members s t k @ [e]
           \<and> deps (effects (track E t ty k s) e) = deps (effects s e) @ [d]
           \<and> log (track E t ty k s) = log s @ onTrack_events E s e t ty k"
    if h: "activeEffect s = Some e \<and> shouldTrack s \<and> e \<notin> set (members s t k)"
  proof (cases "dep_at s t k")
    case None
    then show ?thesis using h
      by (simp add: track_fresh members_def)
         (simp add: dep_at_def map_of_snoc del: map_of_append split: option.splits)
  next
    case (Some d)
    then show ?thesis using h
      by (simp add: track_existing members_def) (simp add: dep_at_def split: option.splits)
  qed
  show "track E t ty k (track E t ty k s) = track E t ty k s"
  proof (cases rule: track_cases [where s=s and t=t and k=k])
    case noop
    then show ?thesis by (simp add: track_noop)
  next
    case (member e d)
    then show ?thesis by (simp add: track_member)
  next
    case (existing e d)
    then show ?thesis
      by (simp add: track_existing) (rule track_member[where e=e and d=d]; simp add: dep_at_def)
  next
    case (fresh e)
    then show ?thesis
      by (simp add: track_fresh)
         (rule track_member[where e=e and d="next_dep s"];
          simp add: dep_at_def map_of_snoc del: map_of_append split: option.splits)
  qed
qed


theorem track_contract_witness:
  "activeEffect (running 2) = Some 0 \<and> shouldTrack (running 2)
   \<and> 0 \<notin> set (members (running 2) obj (Str ''a''))
   \<and> dep_at (track dev_env obj GET (Str ''a'') (running 2)) obj (Str ''a'') = Some 0
   \<and> depsets (track dev_env obj GET (Str ''a'') (running 2)) 0 = [0]
   \<and> deps (effects (track dev_env obj GET (Str ''a'') (running 2)) 0) = [0]"
proof -
  have h: "activeEffect (running 2) = Some 0" "shouldTrack (running 2)"
    "0 \<notin> set (members (running 2) obj (Str ''a''))"
    by (simp_all add: run_defs running_def members_def dep_at_def)
  have v: "dep_at (running 2) obj (Str ''a'') = None" "next_dep (running 2) = 0"
    "members (running 2) obj (Str ''a'') = []" "deps (effects (running 2) 0) = []"
    by (simp_all add: run_defs running_def members_def dep_at_def)
  from track_contract [of "running 2" dev_env obj GET "Str ''a''" 0] h
  obtain d where d: "dep_at (track dev_env obj GET (Str ''a'') (running 2)) obj (Str ''a'') = Some d"
    "dep_at (running 2) obj (Str ''a'') = None \<longrightarrow> d = next_dep (running 2)"
    "depsets (track dev_env obj GET (Str ''a'') (running 2)) d
       = members (running 2) obj (Str ''a'') @ [0]"
    "deps (effects (track dev_env obj GET (Str ''a'') (running 2)) 0)
       = deps (effects (running 2) 0) @ [d]"
    by blast
  then have "d = 0" using v by simp
  then show ?thesis using d h v by simp
qed

text \<open>
  The claim C2 as it is stated fails in a production build: the effect was created with an
  \<^verbatim>\<open>onTrack\<close> callback and its first run established the edge to the set of \<^verbatim>\<open>obj.a\<close>,
  but the only call recorded is that of the computation.
\<close>

theorem onTrack_production_counterexample:
  "DEV prod_env = False
   \<and> onTrack (options (effects after_effect_prod 0)) = Some 0
   \<and> dep_at after_effect_prod obj (Str ''a'') = Some 0
   \<and> depsets after_effect_prod 0 = [0]
   \<and> deps (effects after_effect_prod 0) = [0]
   \<and> log after_effect_prod = [Called 2]"
  by (simp add: run_defs after_effect_prod_def onTrack_opts_def dep_at_def)

section \<open>\<^verbatim>\<open>trigger\<close>: merging, then processing\<close>

lemma run_effects_processed:
  "processed_in_order call E c es s (run_effects call E c es s)"
proof (induction es arbitrary: s)
  case Nil
  show ?case unfolding processed_in_order_def
    by (rule exI[of _ 0], rule exI[of _ "[s]"]) simp
next
  case (Cons e es)
  obtain r s1 where rs: "run call E c e s = (r, s1)" by (cases "run call E c e s")
  show ?case
  proof (cases r)
    case (Normal u)
    from Cons[of s1] obtain j ss where
      j: "j \<le> length es" "length ss = Suc j" "ss ! 0 = s1"
         "\<forall>i<j. \<exists>u. run call E c (es ! i) (ss ! i) = (Normal u, ss ! Suc i)"
         "if j = length es then run_effects call E c es s1 = (Normal Undefined, ss ! j)
          else (\<forall>u. fst (run_effects call E c es s1) \<noteq> Normal u)
               \<and> run call E c (es ! j) (ss ! j) = run_effects call E c es s1"
      unfolding processed_in_order_def by blast
    have all: "\<forall>i<Suc j. \<exists>u. run call E c ((e # es) ! i) ((s # ss) ! i) = (Normal u, (s # ss) ! Suc i)"
    proof (intro allI impI)
      fix i assume "i < Suc j"
      then show "\<exists>u. run call E c ((e # es) ! i) ((s # ss) ! i) = (Normal u, (s # ss) ! Suc i)"
        using j(3,4) rs Normal by (cases i) auto
    qed
    have eq: "run_effects call E c (e # es) s = run_effects call E c es s1"
      using rs Normal by simp
    show ?thesis unfolding processed_in_order_def
      apply (rule exI[of _ "Suc j"], rule exI[of _ "s # ss"])
      using j(1,2,5) all eq by auto
  next
    case (Throw x)
    then show ?thesis unfolding processed_in_order_def
      using rs by (intro exI[of _ 0] exI[of _ "[s]"]) auto
  next
    case OutOfFuel
    then show ?thesis unfolding processed_in_order_def
      using rs by (intro exI[of _ 0] exI[of _ "[s]"]) auto
  qed
qed

lemma run_eq:
  "run call E c e s =
     (case scheduler (options (effects s e)) of
        Some h \<Rightarrow> (Normal Undefined, s\<lparr>log := log s @ onTrigger_events E s e c @ [Scheduled h e]\<rparr>)
      | None \<Rightarrow> reactiveEffect call e (s\<lparr>log := log s @ onTrigger_events E s e c\<rparr>))"
  by (auto simp: run_def onTrigger_events_def Let_def split: option.splits)

text \<open>
  Claim C1, as the code has it. When \<^verbatim>\<open>trigger\<close> finds the object tracked (and, on a
  change of an array's length, the dependency map has string keys only: a symbol key makes
  the collection throw), the effects collected are the merge of all the qualifying
  dependency sets \<open>qualifying_sets\<close>, taken in the order in which they are matched:
  every member of one of these sets but the running effect (unless it allows recursion),
  without repetition, in first-seen order. The merge is complete before any effect is
  processed: \<^verbatim>\<open>trigger\<close> is the processing of that collection from the state it was
  called in. The effects are processed in order, each by a call of its scheduler when one
  is configured and by a run otherwise; processing goes on only as long as the runs return,
  so each effect is processed exactly once when all return, and the effects after one that
  does not return normally are not processed.
\<close>

theorem trigger_merges_then_processes:
  assumes "targetMap s t = Some depsMap"
    and "ty \<noteq> CLEAR \<and> k = Some (Str ''length'') \<and> isArray t \<longrightarrow> string_keys depsMap"
  shows "trigger_effects E s t ty k v depsMap
           = Normal (merged s (qualifying_sets E t ty k v depsMap))
         \<and> distinct (merged s (qualifying_sets E t ty k v depsMap))
         \<and> (\<forall>e. (e \<in> set (merged s (qualifying_sets E t ty k v depsMap)))
                = ((\<exists>d \<in> set (qualifying_sets E t ty k v depsMap). e \<in> set (depsets s d))
                   \<and> (activeEffect s \<noteq> Some e \<or> allowRecurse (effects s e))))
         \<and> trigger call E t ty k v s
             = run_effects call E (t, ty, k, v) (merged s (qualifying_sets E t ty k v depsMap)) s
         \<and> processed_in_order call E (t, ty, k, v)
             (merged s (qualifying_sets E t ty k v depsMap)) s (trigger call E t ty k v s)
         \<and> (\<forall>e s0. run call E (t, ty, k, v) e s0 =
              (case scheduler (options (effects s0 e)) of
                 Some h \<Rightarrow> (Normal Undefined,
                     s0\<lparr>log := log s0 @ onTrigger_events E s0 e (t, ty, k, v) @ [Scheduled h e]\<rparr>)
               | None \<Rightarrow> reactiveEffect call e
                     (s0\<lparr>log := log s0 @ onTrigger_events E s0 e (t, ty, k, v)\<rparr>)))"
proof -
  let ?es = "merged s (qualifying_sets E t ty k v depsMap)"
  have c: "trigger_effects E s t ty k v depsMap = Normal ?es"
    using assms(2) by (rule trigger_effects_eq)
  have d: "distinct ?es" by (simp add: merged_def)
  have m: "\<forall>e. (e \<in> set ?es)
                = ((\<exists>d \<in> set (qualifying_sets E t ty k v depsMap). e \<in> set (depsets s d))
                   \<and> (activeEffect s \<noteq> Some e \<or> allowRecurse (effects s e)))"
    by (auto simp: merged_def keep_def)
  have t: "trigger call E t ty k v s = run_effects call E (t, ty, k, v) ?es s"
    using assms(1) c by (simp add: trigger_def)
  have p: "processed_in_order call E (t, ty, k, v) ?es s (trigger call E t ty k v s)"
    unfolding t by (rule run_effects_processed)
  show ?thesis using c d m t p run_eq by blast
qed

theorem trigger_merges_then_processes_witness:
  "targetMap two_effects obj = Some [(Sym ITERATE_KEY, 0), (Str ''a'', 1)]
   \<and> depsets two_effects 0 = [0] \<and> depsets two_effects 1 = [0, 1]
   \<and> qualifying_sets dev_env obj ADD (Some (Str ''a'')) (Num 1)
         [(Sym ITERATE_KEY, 0), (Str ''a'', 1)] = [1, 0]
   \<and> trigger_effects dev_env two_effects obj ADD (Some (Str ''a'')) (Num 1)
         [(Sym ITERATE_KEY, 0), (Str ''a'', 1)] = Normal [0, 1]
   \<and> trigger (call_fn dev_env (Suc 0)) dev_env obj ADD (Some (Str ''a'')) (Num 1) two_effects
       = run_effects (call_fn dev_env (Suc 0)) dev_env (obj, ADD, Some (Str ''a''), Num 1) [0, 1]
           two_effects
   \<and> fst (trigger (call_fn dev_env (Suc 0)) dev_env obj ADD (Some (Str ''a'')) (Num 1)
            two_effects) = Normal Undefined
   \<and> log two_effects = [Called 6, Called 2]
   \<and> log (snd (trigger (call_fn dev_env (Suc 0)) dev_env obj ADD (Some (Str ''a'')) (Num 1)
                 two_effects)) = [Called 6, Called 2, Called 6, Called 2]"
proof -
  let ?m = "[(Sym ITERATE_KEY, 0 :: nat), (Str ''a'', 1)]"
  have h: "targetMap two_effects obj = Some ?m"
    "depsets two_effects 0 = [0]" "depsets two_effects 1 = [0, 1]"
    "log two_effects = [Called 6, Called 2]"
    by (simp_all add: run_defs two_effects_def)
  have q: "qualifying_sets dev_env obj ADD (Some (Str ''a'')) (Num 1) ?m = [1, 0]"
    by (simp add: qualifying_sets_def default_path_sets_def dep_of_def obj_def)
  have a: "activeEffect two_effects = None"
    by (simp add: run_defs two_effects_def)
  have mg: "merged two_effects [1, 0] = [0, 1]"
    using h(2,3) a by (simp add: merged_def keep_def)
  have pre: "ADD \<noteq> CLEAR \<and> Some (Str ''a'') = Some (Str ''length'') \<and> isArray obj
             \<longrightarrow> string_keys ?m"
    by simp
  have "trigger_effects dev_env two_effects obj ADD (Some (Str ''a'')) (Num 1) ?m
          = Normal (merged two_effects (qualifying_sets dev_env obj ADD (Some (Str ''a''))
                      (Num 1) ?m))
        \<and> trigger (call_fn dev_env (Suc 0)) dev_env obj ADD (Some (Str ''a'')) (Num 1)
            two_effects
          = run_effects (call_fn dev_env (Suc 0)) dev_env (obj, ADD, Some (Str ''a''), Num 1)
              (merged two_effects (qualifying_sets dev_env obj ADD (Some (Str ''a''))
                 (Num 1) ?m)) two_effects"
    using trigger_merges_then_processes [OF h(1) pre, of dev_env "Num 1" "call_fn dev_env (Suc 0)"]
    by blast
  then have c: "trigger_effects dev_env two_effects obj ADD (Some (Str ''a'')) (Num 1) ?m
                  = Normal [0, 1]"
    and t: "trigger (call_fn dev_env (Suc 0)) dev_env obj ADD (Some (Str ''a'')) (Num 1)
              two_effects
            = run_effects (call_fn dev_env (Suc 0)) dev_env (obj, ADD, Some (Str ''a''), Num 1)
                [0, 1] two_effects"
    unfolding q mg by simp_all
  have r: "fst (trigger (call_fn dev_env (Suc 0)) dev_env obj ADD (Some (Str ''a'')) (Num 1)
                  two_effects) = Normal Undefined"
    "log (snd (trigger (call_fn dev_env (Suc 0)) dev_env obj ADD (Some (Str ''a'')) (Num 1)
                 two_effects)) = [Called 6, Called 2, Called 6, Called 2]"
    by (simp_all add: run_defs two_effects_def)
  show ?thesis using h q c t r by simp
qed

text \<open>
  The claim C1 as it is stated fails: both effects are collected, the run of the first
  throws, the error leaves \<^verbatim>\<open>trigger\<close>, and the second effect is not processed (its
  function 2 is not called again).
\<close>

theorem trigger_stops_at_error:
  "targetMap two_subscribers obj = Some [(Str ''a'', 0)]
   \<and> trigger_effects dev_env two_subscribers obj SET (Some (Str ''a'')) (Num 2)
         [(Str ''a'', 0)]
       = Normal [0, 1]
   \<and> log two_subscribers = [Called 1, Called 2]
   \<and> fst (trigger (call_fn dev_env (Suc (Suc 0))) dev_env obj SET (Some (Str ''a'')) (Num 2)
            two_subscribers) = Throw (UserError (Num 7))
   \<and> log (snd (trigger (call_fn dev_env (Suc (Suc 0))) dev_env obj SET (Some (Str ''a''))
                 (Num 2) two_subscribers)) = [Called 1, Called 2, Called 1]"
  by (simp add: run_defs two_subscribers_def)

section \<open>\<^verbatim>\<open>stop\<close>\<close>

lemma uid_track [simp]: "uid (track E t ty k s) = uid s"
  by (cases rule: track_cases [where s=s and t=t and k=k])
     (simp_all add: track_noop track_member track_existing track_fresh)

lemma active_track [simp]: "active (effects (track E t ty k s) e) = active (effects s e)"
  by (cases rule: track_cases [where s=s and t=t and k=k])
     (auto simp add: track_noop track_member track_existing track_fresh)

lemma inactive_rel_trans:
  "inactive_rel s s' \<Longrightarrow> inactive_rel s' s'' \<Longrightarrow> inactive_rel s s''"
  unfolding inactive_rel_def by (meson le_trans less_le_trans)

lemma step_closed_inactive_rel: "step_closed inactive_rel"
  unfolding step_closed_def
proof (intro conjI allI impI)
  show "inactive_rel s s''" if "inactive_rel s s'" "inactive_rel s' s''" for s s' s''
    using that by (rule inactive_rel_trans)
  show "inactive_rel s (end_run s')" if "inactive_rel (begin_run e (cleanup e s)) s'" for e s s'
    using that
    by (auto simp add: inactive_rel_def begin_run_def end_run_def enableTracking_def
          resetTracking_def Let_def cleanup_effects split: if_splits)
qed (simp_all add: inactive_rel_def pauseTracking_def enableTracking_def resetTracking_def
       stop_def Let_def cleanup_effects createReactiveEffect_def split: option.splits)

lemma active_never_restored:
  "e < uid s \<Longrightarrow> \<not> active (effects s e) \<Longrightarrow>
   \<not> active (effects (snd (call_fn E n f s)) e)
   \<and> \<not> active (effects (snd (trigger (call_fn E n) E t ty k v s)) e)
   \<and> \<not> active (effects (snd (reactiveEffect (call_fn E n) e' s)) e)
   \<and> \<not> active (effects (snd (effect (call_fn E n) fn opts s)) e)
   \<and> \<not> active (effects (stop e' s) e) \<and> \<not> active (effects (track E t tt k' s) e)"
  using call_fn_respects[OF step_closed_inactive_rel, of E n]
        trigger_respects[OF step_closed_inactive_rel call_fn_respects[OF step_closed_inactive_rel], of s E n E t ty k v]
        reactiveEffect_respects[OF step_closed_inactive_rel call_fn_respects[OF step_closed_inactive_rel], of s E n e']
        effect_respects[OF step_closed_inactive_rel call_fn_respects[OF step_closed_inactive_rel], of s E n fn opts]
        sc_stop[OF step_closed_inactive_rel, of s e'] sc_track[OF step_closed_inactive_rel, of s E t tt k']
  by (simp add: call_ok_def inactive_rel_def)

lemma stop_contract:
  "(active (effects s e) \<longrightarrow>
      (\<forall>d \<in> set (deps (effects s e)). e \<notin> set (depsets (stop e s) d))
      \<and> log (stop e s) = log s @ (case onStop (options (effects s e)) of
                                    Some h \<Rightarrow> [OnStop h] | None \<Rightarrow> [])
      \<and> \<not> active (effects (stop e s) e))
   \<and> (\<not> active (effects s e) \<longrightarrow> stop e s = s)"
  by (auto simp: stop_def Let_def cleanup_depsets cleanup_effects split: option.splits)

text \<open>
  Claim C7 fails on the code. The effect is created lazily and run once; its computation
  stops the effect and then reads \<^verbatim>\<open>obj.a\<close>. \<^verbatim>\<open>stop\<close> has made the effect inactive, but
  the read after it has subscribed the effect again. A later \<^verbatim>\<open>trigger\<close> on \<^verbatim>\<open>obj.a\<close>
  calls the stopped effect, and its computation runs a second time.
\<close>

theorem stopped_effect_rerun:
  "active (effects self_stopped 0) = False
   \<and> log self_stopped = [Called 0]
   \<and> members self_stopped obj (Str ''a'') = [0]
   \<and> fst (trigger (call_fn dev_env (Suc (Suc 0))) dev_env obj SET (Some (Str ''a'')) (Num 2)
            self_stopped) = Normal Undefined
   \<and> log (snd (trigger (call_fn dev_env (Suc (Suc 0))) dev_env obj SET (Some (Str ''a''))
                 (Num 2) self_stopped)) = [Called 0, Called 0]"
  by (simp add: run_defs self_stopped_def lazy_opts_def members_def dep_at_def)

end
